theory Spec2Isabelle
  imports Main "HOL-Library.Word"
begin

section \<open>Haplotype thread extraction of \<open>vg index\<close> (src/subcommand/index_main.cpp)\<close>

text \<open>
  The development embeds the part of \<open>main_index\<close> that turns the phased genotypes of a
  VCF into haplotype threads: the closures \<open>finish_phase\<close>, \<open>append_node\<close>,
  \<open>append_node_nocheck\<close>, \<open>append_reference_mappings_until\<close> and \<open>handle_variant\<close>,
  the batch loop around them, and the option check on the batch size.

  Conventions. \<open>size_t\<close> coordinates, counts and node identifiers are natural numbers
  (the arithmetic on them stays far below \<open>2 ^ 64\<close> for every graph that fits in memory);
  the batch size, whose parse is where wrap-around matters, is a 64-bit word.
  A \<open>std::vector\<close> is a list; the closures index the per-batch vectors at
  \<open>phase_number - first_phase\<close> and \<open>sample_number - batch_start\<close>, which the predicate
  \<open>wf_state\<close> below keeps in range; a sample number stays below the number of sample
  names, to which \<open>main_index\<close> cuts the range of samples. Exceptions (\<open>std::stoi\<close>, \<open>std::map::at\<close>) are
  values of type \<open>error\<close>; none of them is caught, so they end the run.
\<close>

subsection \<open>Node visits\<close>

type_synonym node_type = nat      \<comment> \<open>\<open>gbwt::node_type\<close>\<close>
type_synonym mapping_t = "nat \<times> bool"  \<comment> \<open>\<open>Mapping\<close>: \<open>position().node_id()\<close>, \<open>position().is_reverse()\<close>\<close>
type_synonym node_side = "nat \<times> bool"  \<comment> \<open>\<open>NodeSide\<close>: \<open>node\<close>, \<open>is_end\<close>\<close>
type_synonym edge = "nat \<times> nat"        \<comment> \<open>\<open>Edge\<close>: \<open>from()\<close>, \<open>to()\<close>\<close>

text \<open>\<open>gbwt::Node::encode\<close>, \<open>gbwt::Node::id\<close> and \<open>gbwt::Node::is_reverse\<close> of the GBWT library:
  an oriented node is twice the node identifier, plus one when reversed.\<close>

definition Node_encode :: "nat \<Rightarrow> bool \<Rightarrow> node_type" where
  "Node_encode i r = 2 * i + (if r then 1 else 0)"

definition Node_id :: "node_type \<Rightarrow> nat" where
  "Node_id n = n div 2"

definition Node_is_reverse :: "node_type \<Rightarrow> bool" where
  "Node_is_reverse n = odd n"

definition ENDMARKER :: node_type where
  "ENDMARKER = 0"

definition gbwt_to_thread_mapping :: "node_type \<Rightarrow> int \<times> bool" where
  "gbwt_to_thread_mapping node = (int (Node_id node), Node_is_reverse node)"

definition mapping_to_gbwt :: "mapping_t \<Rightarrow> node_type" where
  "mapping_to_gbwt mapping = Node_encode (fst mapping) (snd mapping)"

definition node_side_to_gbwt :: "node_side \<Rightarrow> node_type" where
  "node_side_to_gbwt side = Node_encode (fst side) (snd side)"

subsection \<open>Printing and parsing numbers\<close>

definition digit_char :: "nat \<Rightarrow> char" where
  "digit_char d = ''0123456789'' ! d"

fun string_of_nat :: "nat \<Rightarrow> string" where
  "string_of_nat n =
     (if n < 10 then [digit_char n] else string_of_nat (n div 10) @ [digit_char (n mod 10)])"

declare string_of_nat.simps [simp del]

definition string_of_int :: "int \<Rightarrow> string" where
  "string_of_int i = (if i < 0 then CHR ''-'' # string_of_nat (nat (- i)) else string_of_nat (nat i))"

datatype error = Invalid_argument | Out_of_range

definition isspace :: "char \<Rightarrow> bool" where
  "isspace c = (c \<in> set [CHR '' '', CHR 0x09, CHR 0x0A, CHR 0x0B, CHR 0x0C, CHR 0x0D])"

definition isdigit :: "char \<Rightarrow> bool" where
  "isdigit c = (c \<in> set ''0123456789'')"

definition digit_value :: "char \<Rightarrow> int" where
  "digit_value c = of_char c - 48"

definition digits_value :: "string \<Rightarrow> int" where
  "digits_value ds = foldl (\<lambda>acc c. 10 * acc + digit_value c) 0 ds"

text \<open>The sign and the digits that \<open>strtol\<close> and \<open>strtoul\<close> read: leading white space is
  skipped, one sign is accepted, and the longest run of decimal digits follows.\<close>

definition sign_and_digits :: "string \<Rightarrow> bool \<times> string" where
  "sign_and_digits s =
     (let s1 = dropWhile isspace s in
      case s1 of
        [] \<Rightarrow> (False, [])
      | c # r \<Rightarrow>
          if c = CHR ''-'' then (True, takeWhile isdigit r)
          else if c = CHR ''+'' then (False, takeWhile isdigit r)
          else (False, takeWhile isdigit s1))"

text \<open>\<open>std::stoi\<close>: \<open>invalid_argument\<close> without a digit, \<open>out_of_range\<close> outside \<open>int\<close>.\<close>

definition stoi :: "string \<Rightarrow> error + int" where
  "stoi s =
     (case sign_and_digits s of
        (neg, ds) \<Rightarrow>
          if ds = [] then Inl Invalid_argument
          else let v = (if neg then - digits_value ds else digits_value ds) in
               if v < - (2 ^ 31) \<or> 2 ^ 31 - 1 < v then Inl Out_of_range else Inr v)"

text \<open>\<open>std::stoul\<close>: the digits are read as an unsigned 64-bit value, and a minus sign
  negates that value in the unsigned type.\<close>

definition stoul :: "string \<Rightarrow> error + 64 word" where
  "stoul s =
     (case sign_and_digits s of
        (neg, ds) \<Rightarrow>
          if ds = [] then Inl Invalid_argument
          else if 2 ^ 64 - 1 < digits_value ds then Inl Out_of_range
          else let v = (word_of_int (digits_value ds) :: 64 word) in
               Inr (if neg then - v else v))"

subsection \<open>The read-only inputs\<close>

record variant =
  sequenceName :: string
  position :: int
  ref :: string
  alt :: "string list"
  getGenotype :: "string \<Rightarrow> string"

text \<open>
  What the closures capture and only read. The graph index \<open>xg::XG\<close>, the \<open>PathIndex\<close> of
  the contig, \<open>make_variant_id\<close> and \<open>allATGC\<close> are declared outside this file, so they are
  fields here: any behaviour of them is covered.
  \<^item> \<open>has_edge a ar b br\<close> is \<open>index.has_edge(xg::make_edge(a, ar, b, br))\<close>;
  \<^item> \<open>by_start\<close> is the map \<open>PathIndex::by_start\<close> in key order, \<open>find_position\<close> gives the
    index in it of the iterator that \<open>PathIndex::find_position\<close> returns (\<open>length by_start\<close>
    and above stand for \<open>end()\<close>), and \<open>pi_node_length\<close> is \<open>PathIndex::node_length\<close> of the
    iterator at an index;
  \<^item> \<open>node_length\<close> is \<open>index.node_length\<close>, which the \<open>NodeLengthBuffer\<close> memoises.
\<close>

record env =
  has_edge :: "nat \<Rightarrow> bool \<Rightarrow> nat \<Rightarrow> bool \<Rightarrow> bool"
  edges_on_start :: "nat \<Rightarrow> edge list"
  edges_on_end :: "nat \<Rightarrow> edge list"
  node_length :: "nat \<Rightarrow> nat"
  alt_paths :: "string \<rightharpoonup> mapping_t list"
  sample_names :: "string list"
  make_variant_id :: "variant \<Rightarrow> string"
  allATGC :: "string \<Rightarrow> bool"
  discard_overlaps :: bool
  gbwt_name :: string
  binary_haplotype_output :: string
  samples_in_batch :: nat
  sample_range_first :: nat
  sample_range_second :: nat
  path_name :: string
  vcf_contig_name :: string
  path_length :: nat
  by_start :: "(nat \<times> node_side) list"
  by_id :: "nat \<rightharpoonup> nat \<times> bool"
  find_position :: "nat \<Rightarrow> nat"
  pi_node_length :: "nat \<Rightarrow> nat"

subsection \<open>The mutable state of one contig\<close>

datatype diag = Alt_and_ref_missing string string int

record state =
  active_phase_threads :: "node_type list list"
  saved_phase_paths :: "int list"
  active_phases :: "int list"
  diploid_region :: "bool list"
  nonvariant_starts :: "nat list"
  batch_start :: nat
  batch_limit :: nat
  first_phase :: nat
  gbwt_builder :: "(node_type list \<times> bool) list"
  binary_file :: "node_type list"
  all_phase_threads :: "(int \<times> bool) list list"
  thread_names :: "string list"
  cerr :: "diag list"

definition wf_state :: "env \<Rightarrow> state \<Rightarrow> bool" where
  "wf_state e st \<longleftrightarrow>
     length (active_phase_threads st) = 2 * samples_in_batch e \<and>
     length (saved_phase_paths st) = 2 * samples_in_batch e \<and>
     length (nonvariant_starts st) = 2 * samples_in_batch e \<and>
     length (active_phases st) = samples_in_batch e \<and>
     length (diploid_region st) = samples_in_batch e \<and>
     first_phase st = 2 * batch_start st \<and>
     batch_limit st \<le> batch_start st + samples_in_batch e"

subsection \<open>\<open>finish_phase\<close> and \<open>append_node\<close>\<close>

text \<open>The hand-over of a finished thread to the sink in use: the GBWT builder (in both
  orientations), the binary file of node identifiers, or the list of threads for the gPBWT.\<close>

definition sink_insert :: "env \<Rightarrow> node_type list \<Rightarrow> state \<Rightarrow> state" where
  "sink_insert e to_save st =
     (if gbwt_name e \<noteq> [] then
        st\<lparr>gbwt_builder := gbwt_builder st @ [(to_save, True)]\<rparr>
      else if binary_haplotype_output e \<noteq> [] then
        st\<lparr>binary_file := binary_file st @ to_save @ [ENDMARKER]\<rparr>
      else
        st\<lparr>all_phase_threads := all_phase_threads st @ [map gbwt_to_thread_mapping to_save]\<rparr>)"

definition finish_phase :: "env \<Rightarrow> nat \<Rightarrow> string \<Rightarrow> state \<Rightarrow> state" where
  "finish_phase e phase_number name st =
     (let i = phase_number - first_phase st;
          to_save = active_phase_threads st ! i in
      if length to_save > 0 then
        (let st1 = sink_insert e to_save st
         in st1\<lparr>active_phase_threads := (active_phase_threads st1)[i := []],
                saved_phase_paths := (saved_phase_paths st1)[i := saved_phase_paths st1 ! i + 1],
                thread_names := thread_names st1 @ [name]\<rparr>)
      else st)"

definition thread_name :: "string \<Rightarrow> string \<Rightarrow> nat \<Rightarrow> int \<Rightarrow> string" where
  "thread_name sample path slot count =
     ''_thread_'' @ sample @ ''_'' @ path @ ''_'' @ string_of_nat slot @ ''_'' @ string_of_int count"

definition edge_exists :: "env \<Rightarrow> node_type \<Rightarrow> node_type \<Rightarrow> bool" where
  "edge_exists e previous next =
     has_edge e (Node_id previous) (Node_is_reverse previous) (Node_id next) (Node_is_reverse next)"

definition append_node_nocheck :: "nat \<Rightarrow> node_type \<Rightarrow> state \<Rightarrow> state" where
  "append_node_nocheck phase_number next st =
     (let i = phase_number - first_phase st in
      st\<lparr>active_phase_threads := (active_phase_threads st)[i := active_phase_threads st ! i @ [next]]\<rparr>)"

definition append_node :: "env \<Rightarrow> nat \<Rightarrow> node_type \<Rightarrow> state \<Rightarrow> state" where
  "append_node e phase_number next st =
     (let i = phase_number - first_phase st;
          to_extend = active_phase_threads st ! i;
          st1 =
            (if length to_extend > 0 \<and> \<not> edge_exists e (last to_extend) next then
               finish_phase e phase_number
                 (thread_name (sample_names e ! (phase_number div 2)) (path_name e)
                    (phase_number mod 2) (saved_phase_paths st ! i)) st
             else st)
      in append_node_nocheck phase_number next st1)"

subsection \<open>\<open>append_reference_mappings_until\<close>\<close>

text \<open>The \<open>while\<close> loop over the rest of the reference: the triple is \<open>ref_pos\<close>, the index
  of \<open>next_to_add\<close> and the state.\<close>

function reference_loop :: "env \<Rightarrow> nat \<Rightarrow> nat \<Rightarrow> nat \<times> nat \<times> state \<Rightarrow> nat \<times> nat \<times> state" where
  "reference_loop e phase_number end (ref_pos, next_to_add, st) =
     (if ref_pos < end \<and> next_to_add < length (by_start e) then
        reference_loop e phase_number end
          (ref_pos + pi_node_length e next_to_add, Suc next_to_add,
           append_node_nocheck phase_number (node_side_to_gbwt (snd (by_start e ! next_to_add))) st)
      else (ref_pos, next_to_add, st))"
  by pat_completeness auto
termination
  by (relation "measure (\<lambda>(e, p, en, rp, it, st). length (by_start e) - it)") auto

declare reference_loop.simps [simp del]

definition append_reference_mappings_until :: "env \<Rightarrow> nat \<Rightarrow> nat \<Rightarrow> state \<Rightarrow> state" where
  "append_reference_mappings_until e phase_number end st =
     (let i = phase_number - first_phase st;
          ref_pos = nonvariant_starts st ! i;
          next_to_add = find_position e ref_pos;
          first_step =
            (if ref_pos < end \<and> next_to_add < length (by_start e) then
               (ref_pos + pi_node_length e next_to_add, Suc next_to_add,
                append_node e phase_number (node_side_to_gbwt (snd (by_start e ! next_to_add))) st)
             else (ref_pos, next_to_add, st))
      in case reference_loop e phase_number end first_step of
           (ref_pos', next_to_add', st') \<Rightarrow>
             st'\<lparr>nonvariant_starts := (nonvariant_starts st')[i := ref_pos']\<rparr>)"

subsection \<open>Genotypes\<close>

definition npos :: nat where
  "npos = 2 ^ 64 - 1"

definition string_find :: "string \<Rightarrow> char \<Rightarrow> nat option" where
  "string_find s c = (if c \<in> set s then Some (length (takeWhile (\<lambda>x. x \<noteq> c) s)) else None)"

text \<open>The classification of a non-empty genotype string: \<open>new_active_phases\<close>,
  \<open>is_diploid\<close> and \<open>limit\<close>. The first argument is \<open>diploid_region\<close> of the sample.\<close>

definition classify_genotype :: "bool \<Rightarrow> string \<Rightarrow> int \<times> bool \<times> nat" where
  "classify_genotype region genotype =
     (case string_find genotype CHR ''|'' of
        None \<Rightarrow>
          if string_find genotype CHR ''/'' = None then (1, False, length genotype)
          else (0, region, npos)
      | Some limit \<Rightarrow>
          if limit > 0 \<and> limit + 1 < length genotype then (2, True, limit)
          else (0, region, limit))"

definition parse_alt :: "string \<Rightarrow> error + int" where
  "parse_alt alt_str = (if alt_str \<noteq> ''.'' then stoi alt_str else Inr (- 1))"

text \<open>The result is \<open>alt_index\<close>, \<open>new_active_phases\<close> and \<open>is_diploid\<close>.\<close>

definition parse_genotype :: "bool \<Rightarrow> string \<Rightarrow> error + (int list \<times> int \<times> bool)" where
  "parse_genotype region genotype =
     (if genotype \<noteq> [] then
        (case classify_genotype region genotype of
           (new_active_phases, is_diploid, limit) \<Rightarrow>
             (case (if new_active_phases > 0 then parse_alt (take limit genotype) else Inr (- 1)) of
                Inl err \<Rightarrow> Inl err
              | Inr a0 \<Rightarrow>
                  (case (if new_active_phases > 1 then parse_alt (drop (limit + 1) genotype)
                         else Inr (- 1)) of
                     Inl err \<Rightarrow> Inl err
                   | Inr a1 \<Rightarrow> Inr ([a0, a1], new_active_phases, is_diploid))))
      else Inr ([- 1, - 1], 0, region))"

subsection \<open>\<open>handle_variant\<close>\<close>

text \<open>A \<open>for\<close> loop whose body may throw. The functions that work on the state return
  \<open>Inl (err, st)\<close> for the exception \<open>err\<close> thrown in the state \<open>st\<close>, so that what has
  reached the sinks before the exception stays visible.\<close>

fun fold_err :: "('a \<Rightarrow> 's \<Rightarrow> 'e + 's) \<Rightarrow> 'a list \<Rightarrow> 's \<Rightarrow> 'e + 's" where
  "fold_err f [] st = Inr st"
| "fold_err f (x # xs) st = (case f x st of Inl err \<Rightarrow> Inl err | Inr st' \<Rightarrow> fold_err f xs st')"

text \<open>\<open>variant.position\<close> is a \<open>long\<close>; the closures take it as a \<open>size_t\<close>.\<close>

definition to_size_t :: "int \<Rightarrow> nat" where
  "to_size_t x = nat (x mod 2 ^ 64)"

text \<open>One round of the loop that breaks the paths of a sample.\<close>

definition close_phase :: "env \<Rightarrow> variant \<Rightarrow> nat \<Rightarrow> nat \<Rightarrow> state \<Rightarrow> state" where
  "close_phase e v sample_number phase_offset st =
     (let phase_id = 2 * sample_number - first_phase st;
          cursor = nonvariant_starts st ! (phase_id + phase_offset);
          st1 = append_reference_mappings_until e (sample_number * 2 + phase_offset)
                  (to_size_t (position v)) st;
          st2 = finish_phase e (sample_number * 2 + phase_offset)
                  (thread_name (sample_names e ! sample_number) (path_name e) phase_offset
                     (saved_phase_paths st1 ! (sample_number * 2 - first_phase st1))) st1
      in st2\<lparr>nonvariant_starts := (nonvariant_starts st2)[phase_id + phase_offset := cursor]\<rparr>)"

text \<open>The block run when the ploidy changes or the sample becomes inactive.\<close>

definition break_paths :: "env \<Rightarrow> variant \<Rightarrow> nat \<Rightarrow> bool \<Rightarrow> state \<Rightarrow> state" where
  "break_paths e v sample_number is_diploid st =
     (let s = sample_number - batch_start st;
          phase_id = 2 * sample_number - first_phase st;
          st1 = foldl (\<lambda>st' phase_offset. close_phase e v sample_number phase_offset st') st
                  [0 ..< nat (active_phases st ! s)]
      in if is_diploid \<noteq> diploid_region st1 ! s then
           (let max_pos = max (nonvariant_starts st1 ! phase_id)
                              (nonvariant_starts st1 ! (phase_id + 1))
            in st1\<lparr>nonvariant_starts :=
                     (nonvariant_starts st1)[phase_id := max_pos, phase_id + 1 := max_pos]\<rparr>)
         else st1)"

text \<open>\<open>first_ref_base\<close> from the two path lookups; \<open>None\<close> is the branch that warns and
  continues with the next phase.\<close>

definition first_ref_base_of ::
  "env \<Rightarrow> mapping_t list option \<Rightarrow> mapping_t list option \<Rightarrow> error + nat option" where
  "first_ref_base_of e ref_path_iter alt_path_iter =
     (case (case ref_path_iter of None \<Rightarrow> [] | Some p \<Rightarrow> p) of
        first_ref # _ \<Rightarrow>
          (case by_id e (fst first_ref) of
             None \<Rightarrow> Inl Out_of_range
           | Some entry \<Rightarrow> Inr (Some (fst entry)))
      | [] \<Rightarrow>
          (case (case alt_path_iter of None \<Rightarrow> [] | Some p \<Rightarrow> p) of
             first_alt # _ \<Rightarrow>
               (let first_alt_id = fst first_alt;
                    first_alt_orientation = snd first_alt;
                    left_edges = (if first_alt_orientation then edges_on_end e first_alt_id
                                  else edges_on_start e first_alt_id)
                in Inr (Some (foldl (\<lambda>first_ref_base edge.
                     let other_id = (if fst edge = first_alt_id then snd edge else fst edge) in
                     if other_id = first_alt_id then first_ref_base
                     else case by_id e other_id of
                            None \<Rightarrow> first_ref_base
                          | Some entry \<Rightarrow> max first_ref_base (fst entry + node_length e other_id))
                   0 left_edges)))
           | [] \<Rightarrow> Inr None))"

definition last_ref_base_of :: "env \<Rightarrow> mapping_t list option \<Rightarrow> nat \<Rightarrow> nat" where
  "last_ref_base_of e ref_path_iter first_ref_base =
     (case ref_path_iter of
        None \<Rightarrow> first_ref_base
      | Some p \<Rightarrow> foldl (\<lambda>last_ref_base m. last_ref_base + node_length e (fst m)) first_ref_base p)"

text \<open>The body of the loop over the active phases of a sample.\<close>

definition handle_phase ::
  "env \<Rightarrow> variant \<Rightarrow> string \<Rightarrow> nat \<Rightarrow> int list \<Rightarrow> nat \<Rightarrow> state \<Rightarrow> error \<times> state + state" where
  "handle_phase e v var_name sample_number alt_index phase_offset st =
     (if alt_index ! phase_offset = - 1 then Inr st
      else if alt_index ! phase_offset \<noteq> 0 then
        (let ref_path_iter = alt_paths e (''_alt_'' @ var_name @ ''_0'');
             alt_path_iter = alt_paths e (''_alt_'' @ var_name @ ''_'' @
                               string_of_int (alt_index ! phase_offset))
         in case first_ref_base_of e ref_path_iter alt_path_iter of
              Inl err \<Rightarrow> Inl (err, st)
            | Inr None \<Rightarrow>
                Inr (st\<lparr>cerr := cerr st @
                       [Alt_and_ref_missing var_name (sequenceName v) (position v)]\<rparr>)
            | Inr (Some first_ref_base) \<Rightarrow>
                (let last_ref_base = last_ref_base_of e ref_path_iter first_ref_base;
                     phase_number = sample_number * 2 + phase_offset
                 in if nonvariant_starts st ! (phase_number - first_phase st) \<le> first_ref_base
                       \<or> \<not> discard_overlaps e then
                      (let st1 = append_reference_mappings_until e phase_number first_ref_base st;
                           st2 = foldl (\<lambda>st' m. append_node e phase_number (mapping_to_gbwt m) st')
                                   st1 (case alt_path_iter of None \<Rightarrow> [] | Some p \<Rightarrow> p)
                       in Inr (st2\<lparr>nonvariant_starts :=
                                 (nonvariant_starts st2)[phase_number - first_phase st2 :=
                                    last_ref_base]\<rparr>))
                    else Inr st))
      else Inr st)"

text \<open>The body of the loop over the samples of the batch.\<close>

definition handle_sample ::
  "env \<Rightarrow> variant \<Rightarrow> string \<Rightarrow> nat \<Rightarrow> state \<Rightarrow> error \<times> state + state" where
  "handle_sample e v var_name sample_number st =
     (let s = sample_number - batch_start st;
          sample_name = sample_names e ! sample_number;
          genotype = getGenotype v sample_name
      in case parse_genotype (diploid_region st ! s) genotype of
           Inl err \<Rightarrow> Inl (err, st)
         | Inr (alt_index, new_active_phases, is_diploid) \<Rightarrow>
             (let st1 = (if is_diploid \<noteq> diploid_region st ! s
                            \<or> (new_active_phases = 0 \<and> active_phases st ! s > 0)
                         then break_paths e v sample_number is_diploid st else st);
                  st2 = st1\<lparr>active_phases := (active_phases st1)[s := new_active_phases],
                            diploid_region := (diploid_region st1)[s := is_diploid]\<rparr>
              in fold_err (handle_phase e v var_name sample_number alt_index)
                   [0 ..< nat (active_phases st2 ! s)] st2))"

definition handle_variant :: "env \<Rightarrow> variant \<Rightarrow> state \<Rightarrow> error \<times> state + state" where
  "handle_variant e v st =
     fold_err (handle_sample e v (make_variant_id e v)) [batch_start st ..< batch_limit st] st"

subsection \<open>The batches of one contig\<close>

definition isDNA :: "env \<Rightarrow> variant \<Rightarrow> bool" where
  "isDNA e v = (allATGC e (ref v) \<and> list_all (allATGC e) (alt v))"

text \<open>The variants that the scan of one batch hands to \<open>handle_variant\<close>: the records of
  the stream up to the first one of another contig, without those that are not DNA.
  \<open>variants_processed\<close> is their number.\<close>

definition processed_variants :: "env \<Rightarrow> variant list \<Rightarrow> variant list" where
  "processed_variants e stream =
     filter (isDNA e) (takeWhile (\<lambda>var. sequenceName var = vcf_contig_name e) stream)"

definition finish_sample :: "env \<Rightarrow> nat \<Rightarrow> state \<Rightarrow> state" where
  "finish_sample e sample_number st =
     (let s = sample_number - batch_start st;
          st1 = st\<lparr>active_phases := (active_phases st)[s := (if diploid_region st ! s then 2 else 1)]\<rparr>
      in foldl (\<lambda>st' phase_offset.
           let phase_number = sample_number * 2 + phase_offset;
               st'' = append_reference_mappings_until e phase_number (path_length e) st'
           in finish_phase e phase_number
                (thread_name (sample_names e ! sample_number) (path_name e) phase_offset
                   (saved_phase_paths st'' ! (phase_number - first_phase st''))) st'')
         st1 [0 ..< nat (active_phases st1 ! s)])"

definition process_batch :: "env \<Rightarrow> variant list \<Rightarrow> state \<Rightarrow> error \<times> state + state" where
  "process_batch e stream st =
     (case fold_err (\<lambda>var. handle_variant e (var\<lparr>position := position var - 1\<rparr>))
             (processed_variants e stream) st of
        Inl thrown \<Rightarrow> Inl thrown
      | Inr st1 \<Rightarrow>
          Inr (if length (processed_variants e stream) > 0 then
                 foldl (\<lambda>st' sample_number. finish_sample e sample_number st') st1
                   [batch_start st1 ..< batch_limit st1]
               else st1))"

definition next_batch :: "env \<Rightarrow> state \<Rightarrow> state" where
  "next_batch e st =
     st\<lparr>batch_start := batch_limit st,
        batch_limit := min (batch_limit st + samples_in_batch e) (sample_range_second e),
        first_phase := 2 * batch_limit st,
        saved_phase_paths := replicate (2 * samples_in_batch e) 0,
        active_phases := replicate (samples_in_batch e) 0,
        diploid_region := replicate (samples_in_batch e) True,
        nonvariant_starts := replicate (2 * samples_in_batch e) 0\<rparr>"

text \<open>The loop over the batches; with a batch size of zero it does not advance.\<close>

partial_function (option) batch_loop ::
  "env \<Rightarrow> variant list \<Rightarrow> state \<Rightarrow> (error \<times> state + state) option" where
  "batch_loop e stream st =
     (if batch_start st < sample_range_second e then
        (case process_batch e stream st of
           Inl thrown \<Rightarrow> Some (Inl thrown)
         | Inr st' \<Rightarrow> batch_loop e stream (next_batch e st'))
      else Some (Inr st))"

subsection \<open>\<open>main_index\<close>, from the options to the threads\<close>

text \<open>The values of the options after the \<open>getopt_long\<close> loop, except for
  \<open>--batch-size\<close>, whose argument is kept as the string handed to \<open>std::stoul\<close>
  (\<open>None\<close> when the option is absent). \<open>vcf_is_open\<close> says whether opening the VCF
  succeeds, and \<open>vcf_region contig\<close> is what \<open>getNextVariant\<close> yields after
  \<open>setRegion(contig)\<close>.\<close>

record options =
  kmer_size :: int
  kmer_stride :: int
  edge_max :: int
  gcsa_name :: string
  rocksdb_name :: string
  dbg_names :: "string list"
  xg_name :: string
  vcf_name :: string
  file_names :: "string list"
  batch_size_optarg :: "string option"
  path_to_vcf :: "string \<rightharpoonup> string"
  vcf_is_open :: bool
  vcf_region :: "string \<Rightarrow> variant list"

text \<open>One path of the graph index with its \<open>PathIndex\<close>.\<close>

record graph_path =
  p_name :: string
  p_length :: nat
  p_by_start :: "(nat \<times> node_side) list"
  p_by_id :: "nat \<rightharpoonup> nat \<times> bool"
  p_find_position :: "nat \<Rightarrow> nat"
  p_node_length :: "nat \<Rightarrow> nat"

datatype outcome = Failed int | Thrown error state | Completed state

text \<open>The checks on the options that end the program with status 1.\<close>

definition options_rejected :: "options \<Rightarrow> env \<Rightarrow> 64 word \<Rightarrow> bool" where
  "options_rejected opts e batch \<longleftrightarrow>
     (kmer_size opts = 0 \<and> gcsa_name opts \<noteq> [] \<and> dbg_names opts = []) \<or>
     kmer_size opts < 0 \<or>
     (kmer_size opts > 16 \<and> gcsa_name opts \<noteq> []) \<or>
     kmer_stride opts \<le> 0 \<or>
     (vcf_name opts \<noteq> [] \<and> batch < 1) \<or>
     (vcf_name opts \<noteq> [] \<and> gbwt_name e \<noteq> [] \<and> binary_haplotype_output e \<noteq> []) \<or>
     (gcsa_name opts \<noteq> [] \<and> rocksdb_name opts = [] \<and> edge_max opts \<noteq> 0)"

definition no_threads :: state where
  "no_threads =
     \<lparr>active_phase_threads = [], saved_phase_paths = [], active_phases = [],
      diploid_region = [], nonvariant_starts = [], batch_start = 0, batch_limit = 0,
      first_phase = 0, gbwt_builder = [], binary_file = [], all_phase_threads = [],
      thread_names = [], cerr = []\<rparr>"

text \<open>The variables declared at the top of the loop over the paths; the sinks and the
  thread names live across the paths.\<close>

definition init_path :: "env \<Rightarrow> state \<Rightarrow> state" where
  "init_path e st =
     st\<lparr>active_phase_threads := replicate (2 * samples_in_batch e) [],
        saved_phase_paths := replicate (2 * samples_in_batch e) 0,
        active_phases := replicate (samples_in_batch e) 0,
        diploid_region := replicate (samples_in_batch e) True,
        nonvariant_starts := replicate (2 * samples_in_batch e) 0,
        batch_start := sample_range_first e,
        batch_limit := min (sample_range_first e + samples_in_batch e) (sample_range_second e),
        first_phase := 2 * sample_range_first e\<rparr>"

definition index_path ::
  "env \<Rightarrow> variant list \<Rightarrow> state \<Rightarrow> (error \<times> state + state) option" where
  "index_path e stream st = batch_loop e stream (init_path e st)"

fun paths_loop ::
  "(env \<times> variant list) list \<Rightarrow> state \<Rightarrow> (error \<times> state + state) option" where
  "paths_loop [] st = Some (Inr st)"
| "paths_loop ((e, stream) # ps) st =
     (case index_path e stream st of
        None \<Rightarrow> None
      | Some (Inl thrown) \<Rightarrow> Some (Inl thrown)
      | Some (Inr st') \<Rightarrow> paths_loop ps st')"

definition env_of_path :: "options \<Rightarrow> env \<Rightarrow> graph_path \<Rightarrow> env" where
  "env_of_path opts e p =
     e\<lparr>path_name := p_name p,
       vcf_contig_name := (case path_to_vcf opts (p_name p) of None \<Rightarrow> p_name p | Some c \<Rightarrow> c),
       path_length := p_length p,
       by_start := p_by_start p,
       by_id := p_by_id p,
       find_position := p_find_position p,
       pi_node_length := p_node_length p\<rparr>"

text \<open>
  \<open>main_index\<close> up to the end of the xg section. The environment \<open>e\<close> carries the graph
  index, the sample names of the VCF and the options that the closures read; its fields
  for the batch size and the path are set here. \<open>None\<close> is a run that does not return.
  The allocation of the per-batch vectors is not part of the model.
\<close>

definition main_index :: "options \<Rightarrow> env \<Rightarrow> graph_path list \<Rightarrow> outcome option" where
  "main_index opts e paths =
     (case (case batch_size_optarg opts of None \<Rightarrow> Inr 200 | Some optarg \<Rightarrow> stoul optarg) of
        Inl err \<Rightarrow> Some (Thrown err no_threads)
      | Inr batch \<Rightarrow>
          if options_rejected opts e batch then Some (Failed 1)
          else if xg_name opts = [] then Some (Completed no_threads)
          else if vcf_name opts \<noteq> [] \<and> \<not> vcf_is_open opts then Some (Failed 1)
          else if file_names opts = [] then Some (Failed 1)
          else if vcf_name opts = [] then Some (Completed no_threads)
          else if length (sample_names e) = 0 then Some (Failed 1)
          else
            (let e1 = e\<lparr>samples_in_batch := unat batch,
                        sample_range_second :=
                          min (sample_range_second e) (length (sample_names e))\<rparr> in
             case paths_loop
                    (map (\<lambda>p. (env_of_path opts e1 p,
                               vcf_region opts (vcf_contig_name (env_of_path opts e1 p)))) paths)
                    no_threads of
               None \<Rightarrow> None
             | Some (Inl thrown) \<Rightarrow> Some (Thrown (fst thrown) (snd thrown))
             | Some (Inr st) \<Rightarrow> Some (Completed st)))"

subsection \<open>Notions used to state the properties\<close>

text \<open>The three sinks.\<close>

definition sinks ::
  "state \<Rightarrow> (node_type list \<times> bool) list \<times> node_type list \<times> (int \<times> bool) list list" where
  "sinks st = (gbwt_builder st, binary_file st, all_phase_threads st)"

text \<open>The vectors of the batch have an entry for the phase \<open>p\<close>.\<close>

definition phase_ok :: "nat \<Rightarrow> state \<Rightarrow> bool" where
  "phase_ok p st \<longleftrightarrow>
     first_phase st \<le> p \<and>
     p - first_phase st < length (active_phase_threads st) \<and>
     p - first_phase st < length (saved_phase_paths st) \<and>
     p - first_phase st < length (nonvariant_starts st)"

text \<open>The reference node visits between the coordinate \<open>ref_pos\<close>, with the path iterator
  at index \<open>next_to_add\<close>, and the coordinate \<open>end\<close>, together with the coordinate reached:
  the visits that the two loops of \<open>append_reference_mappings_until\<close> append.\<close>

function reference_span :: "env \<Rightarrow> nat \<Rightarrow> nat \<Rightarrow> nat \<Rightarrow> node_type list \<times> nat" where
  "reference_span e end ref_pos next_to_add =
     (if ref_pos < end \<and> next_to_add < length (by_start e) then
        (case reference_span e end (ref_pos + pi_node_length e next_to_add) (Suc next_to_add) of
           (visits, ref_pos') \<Rightarrow>
             (node_side_to_gbwt (snd (by_start e ! next_to_add)) # visits, ref_pos'))
      else ([], ref_pos))"
  by pat_completeness auto
termination
  by (relation "measure (\<lambda>(e, en, rp, it). length (by_start e) - it)") auto

declare reference_span.simps [simp del]

text \<open>Two states agree outside the phase stored at index \<open>i\<close>: the vectors keep their
  lengths, every other buffer, counter and cursor is the same, and so is the bookkeeping of
  the batch and of the samples.\<close>

definition same_except :: "nat \<Rightarrow> state \<Rightarrow> state \<Rightarrow> bool" where
  "same_except i st st' \<longleftrightarrow>
     length (active_phase_threads st') = length (active_phase_threads st) \<and>
     length (saved_phase_paths st') = length (saved_phase_paths st) \<and>
     length (nonvariant_starts st') = length (nonvariant_starts st) \<and>
     (\<forall>j. j \<noteq> i \<longrightarrow>
        active_phase_threads st' ! j = active_phase_threads st ! j \<and>
        saved_phase_paths st' ! j = saved_phase_paths st ! j \<and>
        nonvariant_starts st' ! j = nonvariant_starts st ! j) \<and>
     first_phase st' = first_phase st \<and> batch_start st' = batch_start st \<and>
     batch_limit st' = batch_limit st \<and> active_phases st' = active_phases st \<and>
     diploid_region st' = diploid_region st"

text \<open>The sinks after the hand-over of one more fragment, and of a list of fragments.\<close>

definition sinks_add ::
  "env \<Rightarrow> (node_type list \<times> bool) list \<times> node_type list \<times> (int \<times> bool) list list \<Rightarrow>
   node_type list \<Rightarrow> (node_type list \<times> bool) list \<times> node_type list \<times> (int \<times> bool) list list" where
  "sinks_add e s fragment =
     (case s of
        (builder, file, threads) \<Rightarrow>
          if gbwt_name e \<noteq> [] then (builder @ [(fragment, True)], file, threads)
          else if binary_haplotype_output e \<noteq> [] then
            (builder, file @ fragment @ [ENDMARKER], threads)
          else (builder, file, threads @ [map gbwt_to_thread_mapping fragment]))"

definition hand_over ::
  "env \<Rightarrow> (node_type list \<times> bool) list \<times> node_type list \<times> (int \<times> bool) list list \<Rightarrow>
   node_type list list \<Rightarrow> (node_type list \<times> bool) list \<times> node_type list \<times> (int \<times> bool) list list" where
  "hand_over e s fragments = foldl (sinks_add e) s fragments"

text \<open>The fragments that closing a phase emits, given its buffer and the reference
  visits that extend it: nothing for an empty thread, the buffer and the visits apart when
  the graph has no edge between them, and the extended buffer otherwise.\<close>

definition closing_fragments :: "env \<Rightarrow> node_type list \<Rightarrow> node_type list \<Rightarrow> node_type list list" where
  "closing_fragments e buf visits =
     (case visits of
        [] \<Rightarrow> (if buf = [] then [] else [buf])
      | n # rest \<Rightarrow>
          if buf \<noteq> [] \<and> \<not> edge_exists e (last buf) n then [buf, visits]
          else [buf @ visits])"

text \<open>The reference visits that extend the phase stored at index \<open>i\<close> up to \<open>end\<close>.\<close>

definition reference_visits :: "env \<Rightarrow> state \<Rightarrow> nat \<Rightarrow> nat \<Rightarrow> node_type list" where
  "reference_visits e st i end =
     fst (reference_span e end (nonvariant_starts st ! i)
            (find_position e (nonvariant_starts st ! i)))"

text \<open>A walk: every two consecutive node visits are joined by an edge of the graph. The
  same for a thread of the gPBWT list, and for the binary file, where the fragments are
  the runs between the endmarkers.\<close>

definition walk :: "env \<Rightarrow> node_type list \<Rightarrow> bool" where
  "walk e visits = successively (edge_exists e) visits"

definition thread_walk :: "env \<Rightarrow> (int \<times> bool) list \<Rightarrow> bool" where
  "thread_walk e thread =
     successively (\<lambda>a b. has_edge e (nat (fst a)) (snd a) (nat (fst b)) (snd b)) thread"

definition stream_walk :: "env \<Rightarrow> node_type list \<Rightarrow> bool" where
  "stream_walk e file \<longleftrightarrow>
     successively (\<lambda>a b. a = ENDMARKER \<or> b = ENDMARKER \<or> edge_exists e a b) file \<and>
     (file = [] \<or> last file = ENDMARKER)"

definition sinks_walk :: "env \<Rightarrow> state \<Rightarrow> bool" where
  "sinks_walk e st \<longleftrightarrow>
     list_all (\<lambda>f. walk e (fst f)) (gbwt_builder st) \<and>
     stream_walk e (binary_file st) \<and>
     list_all (thread_walk e) (all_phase_threads st)"

text \<open>The visits of the reference path, in path order, form a walk.\<close>

definition reference_is_walk :: "env \<Rightarrow> bool" where
  "reference_is_walk e = walk e (map (\<lambda>x. node_side_to_gbwt (snd x)) (by_start e))"

text \<open>The invariant of the batch loop: the vectors are well-formed, a sample has at most
  two active phases, and every buffer and everything in the sinks is a walk.\<close>

definition threads_inv :: "env \<Rightarrow> state \<Rightarrow> bool" where
  "threads_inv e st \<longleftrightarrow>
     wf_state e st \<and>
     list_all (\<lambda>a. a \<le> 2) (active_phases st) \<and>
     list_all (walk e) (active_phase_threads st) \<and>
     sinks_walk e st"

text \<open>The state in which a run ended, by an exception or not.\<close>

definition final_state :: "error \<times> state + state \<Rightarrow> state" where
  "final_state r = (case r of Inl thrown \<Rightarrow> snd thrown | Inr st \<Rightarrow> st)"

text \<open>The invariant within the batch of the samples \<open>first\<close> up to \<open>limit\<close>.\<close>

definition batch_inv :: "env \<Rightarrow> nat \<Rightarrow> nat \<Rightarrow> state \<Rightarrow> bool" where
  "batch_inv e first limit st \<longleftrightarrow>
     threads_inv e st \<and> batch_start st = first \<and> batch_limit st = limit"

subsection \<open>A small graph for concrete runs\<close>

text \<open>
  The contig \<open>c\<close> of length 7 is the reference path over the nodes 1, 2 and 3 (of lengths
  3, 1 and 3); node 4 is the alternate allele of node 2 at the variant \<open>v1\<close>. The edges
  are 1-2, 2-3, 1-4 and 4-3; there is one sample, \<open>s0\<close>.
\<close>

definition ex_edges :: "(nat \<times> bool \<times> nat \<times> bool) list" where
  "ex_edges = [(1, False, 2, False), (2, False, 3, False), (1, False, 4, False), (4, False, 3, False)]"

definition ex_by_start :: "(nat \<times> node_side) list" where
  "ex_by_start = [(0, (1, False)), (3, (2, False)), (4, (3, False))]"

definition ex_env :: env where
  "ex_env =
     \<lparr>has_edge = (\<lambda>a ar b br. (a, ar, b, br) \<in> set ex_edges),
      edges_on_start = (\<lambda>n. map (\<lambda>x. (fst x, fst (snd (snd x))))
                                (filter (\<lambda>x. fst (snd (snd x)) = n) ex_edges)),
      edges_on_end = (\<lambda>n. map (\<lambda>x. (fst x, fst (snd (snd x))))
                              (filter (\<lambda>x. fst x = n) ex_edges)),
      node_length = (\<lambda>n. if n = 1 then 3 else if n = 2 then 1 else if n = 3 then 3 else 1),
      alt_paths = [''_alt_v1_0'' \<mapsto> [(2, False)], ''_alt_v1_1'' \<mapsto> [(4, False)]],
      sample_names = [''s0''],
      make_variant_id = (\<lambda>v. ''v1''),
      allATGC = (\<lambda>s. list_all (\<lambda>c. c \<in> set ''ATGC'') s),
      discard_overlaps = False,
      gbwt_name = ''g'',
      binary_haplotype_output = [],
      samples_in_batch = 1,
      sample_range_first = 0,
      sample_range_second = 1,
      path_name = ''c'',
      vcf_contig_name = ''c'',
      path_length = 7,
      by_start = ex_by_start,
      by_id = [1 \<mapsto> (0, False), 2 \<mapsto> (3, False), 3 \<mapsto> (4, False)],
      find_position = (\<lambda>pos. length (takeWhile (\<lambda>x. fst x \<le> pos) ex_by_start) - 1),
      pi_node_length = (\<lambda>i. [3, 1, 3] ! i)\<rparr>"

text \<open>The record of \<open>v1\<close> as the VCF has it (position 4, one-based) with the genotype
  \<open>g\<close> for \<open>s0\<close>.\<close>

definition ex_var :: "string \<Rightarrow> variant" where
  "ex_var g =
     \<lparr>sequenceName = ''c'', position = 4, ref = ''A'', alt = [''T''],
      getGenotype = (\<lambda>n. if n = ''s0'' then g else [])\<rparr>"

text \<open>The same record at another position, the options of a run over this graph given
  the argument of \<open>--batch-size\<close>, and the path \<open>c\<close> as the graph index has it.\<close>

definition ex_var_at :: "int \<Rightarrow> string \<Rightarrow> variant" where
  "ex_var_at pos g = (ex_var g)\<lparr>position := pos\<rparr>"

definition ex_options :: "string \<Rightarrow> options" where
  "ex_options batch =
     \<lparr>kmer_size = 0, kmer_stride = 1, edge_max = 0, gcsa_name = [], rocksdb_name = [],
      dbg_names = [], xg_name = ''x'', vcf_name = ''v'', file_names = [''g''],
      batch_size_optarg = Some batch, path_to_vcf = Map.empty, vcf_is_open = True,
      vcf_region = (\<lambda>contig. if contig = ''c'' then [ex_var ''0|1''] else [])\<rparr>"

definition ex_path :: graph_path where
  "ex_path =
     \<lparr>p_name = ''c'', p_length = 7, p_by_start = ex_by_start,
      p_by_id = [1 \<mapsto> (0, False), 2 \<mapsto> (3, False), 3 \<mapsto> (4, False)],
      p_find_position = (\<lambda>pos. length (takeWhile (\<lambda>x. fst x \<le> pos) ex_by_start) - 1),
      p_node_length = (\<lambda>i. [3, 1, 3] ! i)\<rparr>"

text \<open>The state of a batch in which the two phases of \<open>s0\<close> hold the buffers \<open>b0\<close> and
  \<open>b1\<close> and the cursors \<open>c0\<close> and \<open>c1\<close>, the sample having \<open>n\<close> active phases in a
  region of ploidy \<open>d\<close>.\<close>

definition ex_state :: "node_type list \<Rightarrow> node_type list \<Rightarrow> nat \<Rightarrow> nat \<Rightarrow> int \<Rightarrow> bool \<Rightarrow> state" where
  "ex_state b0 b1 c0 c1 n d =
     \<lparr>active_phase_threads = [b0, b1], saved_phase_paths = [0, 0], active_phases = [n],
      diploid_region = [d], nonvariant_starts = [c0, c1], batch_start = 0, batch_limit = 1,
      first_phase = 0, gbwt_builder = [], binary_file = [], all_phase_threads = [],
      thread_names = [], cerr = []\<rparr>"

text \<open>The same graph after the edge between the reference nodes 2 and 3 has been removed;
  the reference path still visits 1, 2 and 3.\<close>

definition ex_env_pruned :: env where
  "ex_env_pruned =
     ex_env\<lparr>has_edge := (\<lambda>a ar b br.
        (a, ar, b, br) \<in> set [(1, False, 2, False), (1, False, 4, False), (4, False, 3, False)])\<rparr>"

declare batch_loop.simps [code]

section \<open>Properties\<close>

subsection \<open>Frame lemmas\<close>

lemma same_except_refl [simp]: "same_except i st st"
  by (simp add: same_except_def)

lemma same_except_trans:
  "same_except i st st' \<Longrightarrow> same_except i st' st'' \<Longrightarrow> same_except i st st''"
  by (simp add: same_except_def)

lemma sink_insert_frame [simp]:
  "active_phase_threads (sink_insert e f st) = active_phase_threads st"
  "saved_phase_paths (sink_insert e f st) = saved_phase_paths st"
  "nonvariant_starts (sink_insert e f st) = nonvariant_starts st"
  "thread_names (sink_insert e f st) = thread_names st"
  "first_phase (sink_insert e f st) = first_phase st"
  "batch_start (sink_insert e f st) = batch_start st"
  "batch_limit (sink_insert e f st) = batch_limit st"
  "active_phases (sink_insert e f st) = active_phases st"
  "diploid_region (sink_insert e f st) = diploid_region st"
  "cerr (sink_insert e f st) = cerr st"
  by (simp_all add: sink_insert_def)

lemma finish_phase_nonempty:
  assumes "phase_number - first_phase st < length (active_phase_threads st)"
    "active_phase_threads st ! (phase_number - first_phase st) \<noteq> []"
  shows "active_phase_threads (finish_phase e phase_number name st) =
           (active_phase_threads st)[phase_number - first_phase st := []]"
    "saved_phase_paths (finish_phase e phase_number name st) =
       (saved_phase_paths st)[phase_number - first_phase st :=
          saved_phase_paths st ! (phase_number - first_phase st) + 1]"
    "thread_names (finish_phase e phase_number name st) = thread_names st @ [name]"
    "gbwt_builder (finish_phase e phase_number name st) =
       (if gbwt_name e \<noteq> [] then
          gbwt_builder st @ [(active_phase_threads st ! (phase_number - first_phase st), True)]
        else gbwt_builder st)"
    "binary_file (finish_phase e phase_number name st) =
       (if gbwt_name e = [] \<and> binary_haplotype_output e \<noteq> [] then
          binary_file st @ active_phase_threads st ! (phase_number - first_phase st) @ [ENDMARKER]
        else binary_file st)"
    "all_phase_threads (finish_phase e phase_number name st) =
       (if gbwt_name e = [] \<and> binary_haplotype_output e = [] then
          all_phase_threads st @
            [map gbwt_to_thread_mapping (active_phase_threads st ! (phase_number - first_phase st))]
        else all_phase_threads st)"
  using assms by (simp_all add: finish_phase_def sink_insert_def Let_def)

lemma finish_phase_frame [simp]:
  "first_phase (finish_phase e phase_number name st) = first_phase st"
  "batch_start (finish_phase e phase_number name st) = batch_start st"
  "batch_limit (finish_phase e phase_number name st) = batch_limit st"
  "nonvariant_starts (finish_phase e phase_number name st) = nonvariant_starts st"
  "active_phases (finish_phase e phase_number name st) = active_phases st"
  "diploid_region (finish_phase e phase_number name st) = diploid_region st"
  "cerr (finish_phase e phase_number name st) = cerr st"
  by (simp_all add: finish_phase_def sink_insert_def Let_def)

lemma finish_phase_empty:
  "active_phase_threads st ! (phase_number - first_phase st) = [] \<Longrightarrow> finish_phase e phase_number name st = st"
  by (simp add: finish_phase_def)

lemma finish_phase_same_except:
  "same_except (phase_number - first_phase st) st (finish_phase e phase_number name st)"
  by (simp add: same_except_def finish_phase_def Let_def)

lemma finish_phase_buffer_empty:
  "phase_number - first_phase st < length (active_phase_threads st) \<Longrightarrow>
   active_phase_threads (finish_phase e phase_number name st) ! (phase_number - first_phase st) = []"
  by (simp add: finish_phase_def Let_def)

lemma append_node_nocheck_same_except:
  "same_except (phase_number - first_phase st) st (append_node_nocheck phase_number next st)"
  by (simp add: same_except_def append_node_nocheck_def Let_def)

lemma append_node_nocheck_frame [simp]:
  "saved_phase_paths (append_node_nocheck p n st) = saved_phase_paths st"
  "nonvariant_starts (append_node_nocheck p n st) = nonvariant_starts st"
  "thread_names (append_node_nocheck p n st) = thread_names st"
  "gbwt_builder (append_node_nocheck p n st) = gbwt_builder st"
  "binary_file (append_node_nocheck p n st) = binary_file st"
  "all_phase_threads (append_node_nocheck p n st) = all_phase_threads st"
  "first_phase (append_node_nocheck p n st) = first_phase st"
  "batch_start (append_node_nocheck p n st) = batch_start st"
  "batch_limit (append_node_nocheck p n st) = batch_limit st"
  "active_phases (append_node_nocheck p n st) = active_phases st"
  "diploid_region (append_node_nocheck p n st) = diploid_region st"
  "cerr (append_node_nocheck p n st) = cerr st"
  by (simp_all add: append_node_nocheck_def Let_def)

lemma append_node_frame [simp]:
  "nonvariant_starts (append_node e p n st) = nonvariant_starts st"
  "first_phase (append_node e p n st) = first_phase st"
  "batch_start (append_node e p n st) = batch_start st"
  "batch_limit (append_node e p n st) = batch_limit st"
  "active_phases (append_node e p n st) = active_phases st"
  "diploid_region (append_node e p n st) = diploid_region st"
  "cerr (append_node e p n st) = cerr st"
  by (simp_all add: append_node_def Let_def)

lemma append_node_same_except:
  "same_except (phase_number - first_phase st) st (append_node e phase_number next st)"
  by (simp add: same_except_def append_node_def append_node_nocheck_def finish_phase_def Let_def)

subsection \<open>The reference loop\<close>

lemma span_step:
  "ref_pos < en \<Longrightarrow> it < length (by_start e) \<Longrightarrow>
   reference_span e en ref_pos it =
     (node_side_to_gbwt (snd (by_start e ! it)) #
        fst (reference_span e en (ref_pos + pi_node_length e it) (Suc it)),
      snd (reference_span e en (ref_pos + pi_node_length e it) (Suc it)))"
  by (subst reference_span.simps) (simp split: prod.splits)

lemma span_stop:
  "\<not> (ref_pos < en \<and> it < length (by_start e)) \<Longrightarrow> reference_span e en ref_pos it = ([], ref_pos)"
  by (subst reference_span.simps) auto

lemma loop_step:
  "ref_pos < en \<Longrightarrow> it < length (by_start e) \<Longrightarrow>
   reference_loop e phase_number en (ref_pos, it, st) =
        reference_loop e phase_number en (ref_pos + pi_node_length e it, Suc it,
          append_node_nocheck phase_number (node_side_to_gbwt (snd (by_start e ! it))) st)"
  by (subst reference_loop.simps) simp

lemma loop_stop:
  "\<not> (ref_pos < en \<and> it < length (by_start e)) \<Longrightarrow>
   reference_loop e phase_number en (ref_pos, it, st) = (ref_pos, it, st)"
  by (subst reference_loop.simps) auto

lemma reference_loop_span:
  assumes "phase_number - first_phase st < length (active_phase_threads st)"
  shows "reference_loop e phase_number end (ref_pos, it, st) =
           (snd (reference_span e end ref_pos it),
            it + length (fst (reference_span e end ref_pos it)),
            st\<lparr>active_phase_threads := (active_phase_threads st)[phase_number - first_phase st :=
                  active_phase_threads st ! (phase_number - first_phase st) @
                  fst (reference_span e end ref_pos it)]\<rparr>)"
  using assms
proof (induction e "end" ref_pos it arbitrary: st rule: reference_span.induct)
  case (1 e en ref_pos it)
  show ?case
  proof (cases "ref_pos < en \<and> it < length (by_start e)")
    case False
    then show ?thesis
      by (simp add: loop_stop span_stop)
  next
    case True
    then have t1: "ref_pos < en" and t2: "it < length (by_start e)" by simp_all
    let ?n = "node_side_to_gbwt (snd (by_start e ! it))"
    let ?st = "append_node_nocheck phase_number ?n st"
    have r: "phase_number - first_phase ?st < length (active_phase_threads ?st)"
      using "1.prems" by (simp add: append_node_nocheck_def Let_def)
    show ?thesis
      unfolding loop_step [OF t1 t2] span_step [OF t1 t2] "1.IH" [OF True r]
      using "1.prems" by (simp add: append_node_nocheck_def Let_def)
  qed
qed

subsection \<open>\<open>append_reference_mappings_until\<close> through \<open>reference_span\<close>\<close>

lemma append_node_length [simp]:
  "length (active_phase_threads (append_node e p n st)) = length (active_phase_threads st)"
  "length (saved_phase_paths (append_node e p n st)) = length (saved_phase_paths st)"
  using append_node_same_except [of p st e n] by (simp_all add: same_except_def)

lemma finish_phase_length [simp]:
  "length (active_phase_threads (finish_phase e p name st)) = length (active_phase_threads st)"
  "length (saved_phase_paths (finish_phase e p name st)) = length (saved_phase_paths st)"
  using finish_phase_same_except [of p st e name] by (simp_all add: same_except_def)

text \<open>What \<open>append_reference_mappings_until\<close> does, in terms of the visits of
  \<open>reference_span\<close>: the first one goes through \<open>append_node\<close>, the others are appended
  unchecked, and the cursor moves to the coordinate reached.\<close>

lemma append_reference_mappings_until_span:
  assumes i: "p - first_phase st < length (active_phase_threads st)"
    and j: "p - first_phase st < length (nonvariant_starts st)"
  shows "append_reference_mappings_until e p en st =
     (let i = p - first_phase st;
          c = nonvariant_starts st ! i;
          span = reference_span e en c (find_position e c)
      in case fst span of
           [] \<Rightarrow> st
         | n # rest \<Rightarrow>
             (let st1 = append_node e p n st
              in st1\<lparr>active_phase_threads :=
                       (active_phase_threads st1)[i := active_phase_threads st1 ! i @ rest],
                     nonvariant_starts := (nonvariant_starts st1)[i := snd span]\<rparr>))"
proof -
  let ?i = "p - first_phase st"
  let ?c = "nonvariant_starts st ! ?i"
  let ?k = "find_position e ?c"
  show ?thesis
  proof (cases "?c < en \<and> ?k < length (by_start e)")
    case False
    then have nc: "(?c < en \<and> ?k < length (by_start e)) = False" by simp
    have stop: "reference_loop e p en (?c, ?k, st) = (?c, ?k, st)"
      "reference_span e en ?c ?k = ([], ?c)"
      using False by (simp_all add: loop_stop span_stop)
    show ?thesis
      unfolding append_reference_mappings_until_def Let_def if_bool_eq_conj nc
      using j by (simp add: stop)
  next
    case True
    then have t1: "?c < en" and t2: "?k < length (by_start e)" by simp_all
    let ?n = "node_side_to_gbwt (snd (by_start e ! ?k))"
    let ?st1 = "append_node e p ?n st"
    have r: "p - first_phase ?st1 < length (active_phase_threads ?st1)"
      using i by simp
    show ?thesis
      unfolding append_reference_mappings_until_def Let_def span_step [OF t1 t2]
      using t1 t2 by (simp add: reference_loop_span [OF r])
  qed
qed

lemma reference_span_Nil:
  "fst (reference_span e en c k) = [] \<Longrightarrow> snd (reference_span e en c k) = c"
proof (cases "c < en \<and> k < length (by_start e)")
  case True
  moreover assume "fst (reference_span e en c k) = []"
  ultimately show ?thesis using span_step [of c en k e] by simp
next
  case False
  then show ?thesis by (simp add: span_stop)
qed

lemma append_reference_mappings_until_cursor:
  assumes "phase_ok p st"
  shows "nonvariant_starts (append_reference_mappings_until e p en st) =
           (nonvariant_starts st)[p - first_phase st :=
              snd (reference_span e en (nonvariant_starts st ! (p - first_phase st))
                     (find_position e (nonvariant_starts st ! (p - first_phase st))))]"
proof -
  let ?c = "nonvariant_starts st ! (p - first_phase st)"
  have i: "p - first_phase st < length (active_phase_threads st)"
    and j: "p - first_phase st < length (nonvariant_starts st)"
    using assms by (simp_all add: phase_ok_def)
  show ?thesis
  proof (cases "fst (reference_span e en ?c (find_position e ?c))")
    case Nil
    then have "snd (reference_span e en ?c (find_position e ?c)) = ?c"
      by (rule reference_span_Nil)
    with Nil show ?thesis
      by (simp add: append_reference_mappings_until_span [OF i j] Let_def)
  next
    case (Cons n rest)
    then show ?thesis
      by (simp add: append_reference_mappings_until_span [OF i j] Let_def)
  qed
qed

lemma append_reference_mappings_until_frame [simp]:
  assumes "phase_ok p st"
  shows "first_phase (append_reference_mappings_until e p en st) = first_phase st"
    "batch_start (append_reference_mappings_until e p en st) = batch_start st"
    "batch_limit (append_reference_mappings_until e p en st) = batch_limit st"
    "active_phases (append_reference_mappings_until e p en st) = active_phases st"
    "diploid_region (append_reference_mappings_until e p en st) = diploid_region st"
    "cerr (append_reference_mappings_until e p en st) = cerr st"
    "length (active_phase_threads (append_reference_mappings_until e p en st)) =
       length (active_phase_threads st)"
    "length (saved_phase_paths (append_reference_mappings_until e p en st)) =
       length (saved_phase_paths st)"
    "length (nonvariant_starts (append_reference_mappings_until e p en st)) =
       length (nonvariant_starts st)"
proof -
  have i: "p - first_phase st < length (active_phase_threads st)"
    and j: "p - first_phase st < length (nonvariant_starts st)"
    using assms by (simp_all add: phase_ok_def)
  note c = append_reference_mappings_until_span [OF i j, of e en]
  show "first_phase (append_reference_mappings_until e p en st) = first_phase st"
    "batch_start (append_reference_mappings_until e p en st) = batch_start st"
    "batch_limit (append_reference_mappings_until e p en st) = batch_limit st"
    "active_phases (append_reference_mappings_until e p en st) = active_phases st"
    "diploid_region (append_reference_mappings_until e p en st) = diploid_region st"
    "cerr (append_reference_mappings_until e p en st) = cerr st"
    "length (active_phase_threads (append_reference_mappings_until e p en st)) =
       length (active_phase_threads st)"
    "length (saved_phase_paths (append_reference_mappings_until e p en st)) =
       length (saved_phase_paths st)"
    "length (nonvariant_starts (append_reference_mappings_until e p en st)) =
       length (nonvariant_starts st)"
    by (simp_all add: c Let_def split: list.splits)
qed

lemma append_reference_mappings_until_same_except:
  assumes "phase_ok p st"
  shows "same_except (p - first_phase st) st (append_reference_mappings_until e p en st)"
proof -
  have i: "p - first_phase st < length (active_phase_threads st)"
    and j: "p - first_phase st < length (nonvariant_starts st)"
    using assms by (simp_all add: phase_ok_def)
  note c = append_reference_mappings_until_span [OF i j, of e en]
  have a: "same_except (p - first_phase st) st (append_node e p n st)" for n
    by (rule append_node_same_except)
  show ?thesis
    using a by (simp add: c Let_def same_except_def split: list.splits)
qed

lemma same_except_phase_ok:
  "same_except i st st' \<Longrightarrow> phase_ok p st \<Longrightarrow> phase_ok p st'"
  by (simp add: same_except_def phase_ok_def)

lemma append_node_phase_ok [simp]: "phase_ok q (append_node e p n st) = phase_ok q st"
  by (simp add: phase_ok_def)

lemma same_except_length:
  "same_except i st st' \<Longrightarrow> length (nonvariant_starts st') = length (nonvariant_starts st)"
  by (simp add: same_except_def)

lemma finish_phase_phase_ok [simp]: "phase_ok q (finish_phase e p name st) = phase_ok q st"
  by (simp add: phase_ok_def)

lemma append_reference_mappings_until_phase_ok:
  "phase_ok p st \<Longrightarrow> phase_ok q st \<Longrightarrow> phase_ok q (append_reference_mappings_until e p en st)"
  by (simp add: phase_ok_def)

text \<open>Appending the visits of an allele path.\<close>

lemma foldl_append_node_frame [simp]:
  "nonvariant_starts (foldl (\<lambda>st' m. append_node e p (f m) st') st ms) = nonvariant_starts st"
  "first_phase (foldl (\<lambda>st' m. append_node e p (f m) st') st ms) = first_phase st"
  "batch_start (foldl (\<lambda>st' m. append_node e p (f m) st') st ms) = batch_start st"
  "batch_limit (foldl (\<lambda>st' m. append_node e p (f m) st') st ms) = batch_limit st"
  "active_phases (foldl (\<lambda>st' m. append_node e p (f m) st') st ms) = active_phases st"
  "diploid_region (foldl (\<lambda>st' m. append_node e p (f m) st') st ms) = diploid_region st"
  "cerr (foldl (\<lambda>st' m. append_node e p (f m) st') st ms) = cerr st"
  "length (active_phase_threads (foldl (\<lambda>st' m. append_node e p (f m) st') st ms)) =
     length (active_phase_threads st)"
  "length (saved_phase_paths (foldl (\<lambda>st' m. append_node e p (f m) st') st ms)) =
     length (saved_phase_paths st)"
  by (induction ms arbitrary: st; simp)+

lemma foldl_append_node_same_except:
  "same_except (p - first_phase st) st (foldl (\<lambda>st' m. append_node e p (f m) st') st ms)"
proof (induction ms arbitrary: st)
  case Nil
  show ?case by simp
next
  case (Cons m ms)
  have "same_except (p - first_phase st) (append_node e p (f m) st)
          (foldl (\<lambda>st' m. append_node e p (f m) st') (append_node e p (f m) st) ms)"
    using Cons [of "append_node e p (f m) st"] by simp
  with append_node_same_except [of p st e "f m"] show ?case
    by (simp add: same_except_trans)
qed

subsection \<open>Sinks and closing a phase\<close>

lemma sinks_sink_insert: "sinks (sink_insert e f st) = sinks_add e (sinks st) f"
  by (simp add: sinks_def sink_insert_def sinks_add_def)

lemma sinks_updates [simp]:
  "sinks (st\<lparr>active_phase_threads := a\<rparr>) = sinks st"
  "sinks (st\<lparr>saved_phase_paths := b\<rparr>) = sinks st"
  "sinks (st\<lparr>nonvariant_starts := c\<rparr>) = sinks st"
  "sinks (st\<lparr>thread_names := d\<rparr>) = sinks st"
  "sinks (st\<lparr>active_phases := f\<rparr>) = sinks st"
  "sinks (st\<lparr>diploid_region := g\<rparr>) = sinks st"
  "sinks (st\<lparr>cerr := h\<rparr>) = sinks st"
  by (simp_all add: sinks_def)

lemma sinks_finish_phase:
  "sinks (finish_phase e p name st) =
     (if active_phase_threads st ! (p - first_phase st) = [] then sinks st
      else sinks_add e (sinks st) (active_phase_threads st ! (p - first_phase st)))"
  by (simp add: finish_phase_def Let_def sinks_sink_insert)

lemma sinks_append_node_nocheck [simp]: "sinks (append_node_nocheck p n st) = sinks st"
  by (simp add: append_node_nocheck_def Let_def)

lemma sinks_append_node:
  "sinks (append_node e p n st) =
     (if active_phase_threads st ! (p - first_phase st) \<noteq> [] \<and>
         \<not> edge_exists e (last (active_phase_threads st ! (p - first_phase st))) n
      then sinks_add e (sinks st) (active_phase_threads st ! (p - first_phase st))
      else sinks st)"
  by (simp add: append_node_def Let_def sinks_finish_phase)

lemma buffer_append_node:
  "p - first_phase st < length (active_phase_threads st) \<Longrightarrow>
   active_phase_threads (append_node e p n st) ! (p - first_phase st) =
     (if active_phase_threads st ! (p - first_phase st) \<noteq> [] \<and>
         \<not> edge_exists e (last (active_phase_threads st ! (p - first_phase st))) n
      then [n] else active_phase_threads st ! (p - first_phase st) @ [n])"
  by (simp add: append_node_def append_node_nocheck_def Let_def finish_phase_def)

text \<open>Extending a phase with reference and closing it.\<close>

lemma close_sinks:
  assumes ok: "phase_ok p st"
  shows "sinks (finish_phase e p name (append_reference_mappings_until e p en st)) =
           hand_over e (sinks st)
             (closing_fragments e (active_phase_threads st ! (p - first_phase st))
                (reference_visits e st (p - first_phase st) en))"
proof -
  let ?i = "p - first_phase st"
  have i: "?i < length (active_phase_threads st)"
    and j: "?i < length (nonvariant_starts st)"
    using ok by (simp_all add: phase_ok_def)
  note c = append_reference_mappings_until_span [OF i j, of e en]
  show ?thesis
  proof (cases "reference_visits e st ?i en")
    case Nil
    then show ?thesis
      by (simp add: c Let_def reference_visits_def sinks_finish_phase closing_fragments_def
          hand_over_def)
  next
    case (Cons n rest)
    then show ?thesis
      using i
      by (simp add: c Let_def reference_visits_def sinks_finish_phase closing_fragments_def
          hand_over_def finish_phase_def sinks_sink_insert sinks_append_node buffer_append_node)
  qed
qed

lemma close_phase_eq:
  assumes ok: "phase_ok (sample_number * 2 + phase_offset) st"
    and fp: "first_phase st \<le> 2 * sample_number"
  shows "close_phase e v sample_number phase_offset st =
     (finish_phase e (sample_number * 2 + phase_offset)
        (thread_name (sample_names e ! sample_number) (path_name e) phase_offset
           (saved_phase_paths
              (append_reference_mappings_until e (sample_number * 2 + phase_offset)
                 (to_size_t (position v)) st) ! (sample_number * 2 - first_phase st)))
        (append_reference_mappings_until e (sample_number * 2 + phase_offset)
           (to_size_t (position v)) st))
     \<lparr>nonvariant_starts := nonvariant_starts st\<rparr>"
proof -
  have idx: "2 * sample_number - first_phase st + phase_offset =
      sample_number * 2 + phase_offset - first_phase st"
    using fp by simp
  have j: "sample_number * 2 + phase_offset - first_phase st < length (nonvariant_starts st)"
    using ok by (simp add: phase_ok_def)
  show ?thesis
    unfolding close_phase_def Let_def idx
    using j by (simp add: ok append_reference_mappings_until_cursor)
qed

lemma close_phase_props:
  assumes ok: "phase_ok (sample_number * 2 + phase_offset) st"
    and fp: "first_phase st \<le> 2 * sample_number"
  shows "same_except (sample_number * 2 + phase_offset - first_phase st) st
           (close_phase e v sample_number phase_offset st)"
    and "nonvariant_starts (close_phase e v sample_number phase_offset st) = nonvariant_starts st"
    and "active_phase_threads (close_phase e v sample_number phase_offset st) !
           (sample_number * 2 + phase_offset - first_phase st) = []"
    and "sinks (close_phase e v sample_number phase_offset st) =
           hand_over e (sinks st)
             (closing_fragments e
                (active_phase_threads st ! (sample_number * 2 + phase_offset - first_phase st))
                (reference_visits e st (sample_number * 2 + phase_offset - first_phase st)
                   (to_size_t (position v))))"
proof -
  let ?p = "sample_number * 2 + phase_offset"
  let ?st1 = "append_reference_mappings_until e ?p (to_size_t (position v)) st"
  note eq = close_phase_eq [OF ok fp, of e v]
  have s1: "same_except (?p - first_phase st) st ?st1"
    by (rule append_reference_mappings_until_same_except [OF ok])
  have f1: "first_phase ?st1 = first_phase st" using ok by simp
  have s2: "same_except (?p - first_phase st) ?st1 (finish_phase e ?p name ?st1)" for name
    using finish_phase_same_except [of ?p ?st1 e name] by (simp add: f1)
  have s12: "same_except (?p - first_phase st) st (finish_phase e ?p name ?st1)" for name
    by (rule same_except_trans [OF s1 s2])
  show "same_except (?p - first_phase st) st (close_phase e v sample_number phase_offset st)"
    using s12 unfolding eq by (simp add: same_except_def)
  show "nonvariant_starts (close_phase e v sample_number phase_offset st) = nonvariant_starts st"
    unfolding eq by simp
  have r: "?p - first_phase ?st1 < length (active_phase_threads ?st1)"
    using ok by (simp add: phase_ok_def)
  show "active_phase_threads (close_phase e v sample_number phase_offset st) !
           (?p - first_phase st) = []"
    unfolding eq using finish_phase_buffer_empty [OF r] by (simp add: f1)
  show "sinks (close_phase e v sample_number phase_offset st) =
           hand_over e (sinks st)
             (closing_fragments e (active_phase_threads st ! (?p - first_phase st))
                (reference_visits e st (?p - first_phase st) (to_size_t (position v))))"
    unfolding eq by (simp add: close_sinks [OF ok])
qed

subsection \<open>The loop that closes the phases of a sample\<close>

lemma hand_over_append: "hand_over e (hand_over e s fs) gs = hand_over e s (fs @ gs)"
  by (simp add: hand_over_def)

lemma hand_over_Nil [simp]: "hand_over e s [] = s"
  by (simp add: hand_over_def)

lemma same_except_first_phase: "same_except i st st' \<Longrightarrow> first_phase st' = first_phase st"
  by (simp add: same_except_def)

lemma same_except_other:
  "same_except i st st' \<Longrightarrow> j \<noteq> i \<Longrightarrow>
   active_phase_threads st' ! j = active_phase_threads st ! j \<and>
   saved_phase_paths st' ! j = saved_phase_paths st ! j \<and>
   nonvariant_starts st' ! j = nonvariant_starts st ! j"
  by (simp add: same_except_def)

lemma same_except_samples:
  "same_except i st st' \<Longrightarrow>
   active_phases st' = active_phases st \<and> diploid_region st' = diploid_region st \<and>
   batch_start st' = batch_start st \<and> batch_limit st' = batch_limit st"
  by (simp add: same_except_def)

text \<open>The loop of \<open>break_paths\<close> over at most two active phases.\<close>

lemma close_loop:
  assumes fp: "first_phase st \<le> 2 * sample_number"
    and ok0: "phase_ok (sample_number * 2) st"
    and ok1: "phase_ok (sample_number * 2 + 1) st"
    and n2: "n \<le> 2"
    and pid: "pid = 2 * sample_number - first_phase st"
    and st1: "st1 = foldl (\<lambda>st' phase_offset. close_phase e v sample_number phase_offset st') st [0 ..< n]"
  shows "\<forall>po<n. active_phase_threads st1 ! (pid + po) = []"
    and "sinks st1 = hand_over e (sinks st)
           (concat (map (\<lambda>po. closing_fragments e (active_phase_threads st ! (pid + po))
                                (reference_visits e st (pid + po) (to_size_t (position v))))
                     [0 ..< n]))"
    and "nonvariant_starts st1 = nonvariant_starts st"
    and "diploid_region st1 = diploid_region st"
    and "first_phase st1 = first_phase st"
    and "active_phases st1 = active_phases st"
    and "batch_start st1 = batch_start st"
    and "batch_limit st1 = batch_limit st"
    and "length (active_phase_threads st1) = length (active_phase_threads st)"
    and "length (saved_phase_paths st1) = length (saved_phase_paths st)"
proof -
  have i0: "sample_number * 2 + 0 - first_phase st = pid"
    and i1: "sample_number * 2 + 1 - first_phase st = pid + 1"
    using fp pid by simp_all
  let ?a = "close_phase e v sample_number 0 st"
  let ?b = "close_phase e v sample_number 1 ?a"
  have ok0': "phase_ok (sample_number * 2 + 0) st" using ok0 by simp
  note a = close_phase_props [OF ok0' fp, of e v, unfolded i0]
  have fa: "first_phase ?a = first_phase st"
    by (rule same_except_first_phase [OF a(1)])
  have ok1a: "phase_ok (sample_number * 2 + 1) ?a"
    by (rule same_except_phase_ok [OF a(1) ok1])
  have fpa: "first_phase ?a \<le> 2 * sample_number" using fp fa by simp
  note b = close_phase_props [OF ok1a fpa, of e v, unfolded fa i1]
  have keep: "active_phase_threads ?a ! (pid + 1) = active_phase_threads st ! (pid + 1)"
    using same_except_other [OF a(1), of "pid + 1"] by simp
  have visits: "reference_visits e ?a (pid + 1) en = reference_visits e st (pid + 1) en" for en
    by (simp add: reference_visits_def a(2))
  have zero: "active_phase_threads ?b ! pid = []"
    using same_except_other [OF b(1), of pid] a(3) by simp
  let ?frame = "\<lambda>y. diploid_region y = diploid_region st \<and> first_phase y = first_phase st \<and>
          active_phases y = active_phases st \<and> batch_start y = batch_start st \<and>
          batch_limit y = batch_limit st \<and>
          length (active_phase_threads y) = length (active_phase_threads st) \<and>
          length (saved_phase_paths y) = length (saved_phase_paths st)"
  consider "n = 0" | "n = 1" | "n = 2" using n2 by linarith
  then have main: "(\<forall>po<n. active_phase_threads st1 ! (pid + po) = []) \<and>
     sinks st1 = hand_over e (sinks st)
           (concat (map (\<lambda>po. closing_fragments e (active_phase_threads st ! (pid + po))
                                (reference_visits e st (pid + po) (to_size_t (position v))))
                     [0 ..< n])) \<and>
     nonvariant_starts st1 = nonvariant_starts st \<and> ?frame st1"
  proof cases
    case 1
    then show ?thesis using st1 by simp
  next
    case 2
    then have "st1 = ?a" using st1 by simp
    with 2 a show ?thesis by (simp add: same_except_def)
  next
    case 3
    have up: "[0 ..< 2] = [0, 1::nat]"
      by (simp add: upt_rec [of 0] upt_rec [of 1] upt_rec [of "Suc 0"])
    have e: "st1 = ?b" using st1 unfolding 3 up by simp
    have all: "\<forall>po<2. active_phase_threads ?b ! (pid + po) = []"
    proof (intro allI impI)
      fix po :: nat
      assume "po < 2"
      then have "po = 0 \<or> po = 1" by linarith
      then show "active_phase_threads ?b ! (pid + po) = []"
        using zero b(3) by auto
    qed
    have sk: "sinks ?b = hand_over e (sinks st)
           (concat (map (\<lambda>po. closing_fragments e (active_phase_threads st ! (pid + po))
                                (reference_visits e st (pid + po) (to_size_t (position v))))
                     [0 ..< 2]))"
    proof -
      let ?F0 = "closing_fragments e (active_phase_threads st ! pid)
                   (reference_visits e st pid (to_size_t (position v)))"
      let ?F1 = "closing_fragments e (active_phase_threads st ! (pid + 1))
                   (reference_visits e st (pid + 1) (to_size_t (position v)))"
      have "sinks ?b = hand_over e (sinks ?a)
          (closing_fragments e (active_phase_threads ?a ! (pid + 1))
             (reference_visits e ?a (pid + 1) (to_size_t (position v))))"
        by (rule b(4))
      also have "\<dots> = hand_over e (hand_over e (sinks st) ?F0) ?F1"
        unfolding a(4) keep visits ..
      also have "\<dots> = hand_over e (sinks st) (?F0 @ ?F1)"
        by (rule hand_over_append)
      finally show ?thesis
        unfolding up by simp
    qed
    have fr: "?frame ?b"
      using a(1) b(1) by (simp add: same_except_def)
    show ?thesis
      unfolding 3 e using all sk b(2) a(2) fr by simp
  qed
  from main
  show "\<forall>po<n. active_phase_threads st1 ! (pid + po) = []"
    and "sinks st1 = hand_over e (sinks st)
           (concat (map (\<lambda>po. closing_fragments e (active_phase_threads st ! (pid + po))
                                (reference_visits e st (pid + po) (to_size_t (position v))))
                     [0 ..< n]))"
    and "nonvariant_starts st1 = nonvariant_starts st"
    and "diploid_region st1 = diploid_region st"
    and "first_phase st1 = first_phase st"
    and "active_phases st1 = active_phases st"
    and "batch_start st1 = batch_start st"
    and "batch_limit st1 = batch_limit st"
    and "length (active_phase_threads st1) = length (active_phase_threads st)"
    and "length (saved_phase_paths st1) = length (saved_phase_paths st)"
    by simp_all
qed

subsection \<open>One phase at one variant\<close>

lemma handle_phase_missing:
  "alt_index ! phase_offset = - 1 \<Longrightarrow>
   handle_phase e v var_name sample_number alt_index phase_offset st = Inr st"
  by (simp add: handle_phase_def)

lemma handle_phase_reference:
  "alt_index ! phase_offset = 0 \<Longrightarrow>
   handle_phase e v var_name sample_number alt_index phase_offset st = Inr st"
  by (simp add: handle_phase_def)

lemma same_except_cursor:
  "same_except i st st' \<Longrightarrow>
   same_except i st (st'\<lparr>nonvariant_starts := (nonvariant_starts st')[i := c]\<rparr>)"
  by (simp add: same_except_def)

lemma handle_phase_same_except:
  assumes ok: "phase_ok (sample_number * 2 + phase_offset) st"
    and res: "handle_phase e v var_name sample_number alt_index phase_offset st = Inr st'"
  shows "same_except (sample_number * 2 + phase_offset - first_phase st) st st'"
proof -
  let ?p = "sample_number * 2 + phase_offset"
  let ?i = "?p - first_phase st"
  let ?st1 = "append_reference_mappings_until e ?p en st"
  have alt: "same_except ?i st
      ((foldl (\<lambda>st' m. append_node e ?p (mapping_to_gbwt m) st')
          (append_reference_mappings_until e ?p en st) ms)
       \<lparr>nonvariant_starts :=
          (nonvariant_starts (foldl (\<lambda>st' m. append_node e ?p (mapping_to_gbwt m) st')
             (append_reference_mappings_until e ?p en st) ms))[?i := c]\<rparr>)" for en ms c
  proof -
    let ?st1 = "append_reference_mappings_until e ?p en st"
    have s1: "same_except ?i st ?st1"
      by (rule append_reference_mappings_until_same_except [OF ok])
    have f1: "first_phase ?st1 = first_phase st" using ok by simp
    have s2: "same_except ?i ?st1 (foldl (\<lambda>st' m. append_node e ?p (mapping_to_gbwt m) st') ?st1 ms)"
      using foldl_append_node_same_except [of ?p ?st1 e mapping_to_gbwt ms] by (simp add: f1)
    show ?thesis
      by (rule same_except_cursor [OF same_except_trans [OF s1 s2]])
  qed
  have warn: "same_except ?i st (st\<lparr>cerr := w\<rparr>)" for w
    by (simp add: same_except_def)
  let ?r = "alt_paths e (''_alt_'' @ var_name @ ''_0'')"
  let ?a = "alt_paths e (''_alt_'' @ var_name @ ''_'' @ string_of_int (alt_index ! phase_offset))"
  show ?thesis
  proof (cases "alt_index ! phase_offset = - 1 \<or> alt_index ! phase_offset = 0")
    case True
    then have "st' = st" using res by (auto simp add: handle_phase_def)
    then show ?thesis by simp
  next
    case False
    then have called: "alt_index ! phase_offset \<noteq> - 1" "alt_index ! phase_offset \<noteq> 0"
      by simp_all
    show ?thesis
    proof (cases "first_ref_base_of e ?r ?a")
      case (Inl err)
      then show ?thesis
        using res called unfolding handle_phase_def Let_def by simp
    next
      case (Inr found)
      show ?thesis
      proof (cases found)
        case None
        then show ?thesis
          using res called Inr warn unfolding handle_phase_def Let_def by auto
      next
        case (Some first_ref_base)
        show ?thesis
        proof (cases "nonvariant_starts st ! ?i \<le> first_ref_base \<or> \<not> discard_overlaps e")
          case True
          then show ?thesis
            using res called Inr Some ok
              alt [of first_ref_base "case ?a of None \<Rightarrow> [] | Some p \<Rightarrow> p"]
            unfolding handle_phase_def Let_def by auto
        next
          case False
          then have "st' = st"
            using res called Inr Some unfolding handle_phase_def Let_def by auto
          then show ?thesis by simp
        qed
      qed
    qed
  qed
qed

lemma parse_genotype_shape:
  assumes "parse_genotype region genotype = Inr (alt_index, new_active_phases, is_diploid)"
  shows "(new_active_phases = 0 \<or> new_active_phases = 1 \<or> new_active_phases = 2) \<and>
         length alt_index = 2"
  using assms
  by (auto simp add: parse_genotype_def classify_genotype_def
      split: if_splits sum.splits option.splits)

subsection \<open>Walks\<close>

lemma list_all_update: "list_all P xs \<Longrightarrow> P x \<Longrightarrow> list_all P (xs[i := x])"
  by (metis list_all_iff insertE set_update_subset_insert subsetD)

lemma walk_Nil [simp]: "walk e []"
  by (simp add: walk_def)

lemma walk_single [simp]: "walk e [n]"
  by (simp add: walk_def)

lemma walk_snoc: "walk e (b @ [n]) \<longleftrightarrow> walk e b \<and> (b \<noteq> [] \<longrightarrow> edge_exists e (last b) n)"
  by (auto simp add: walk_def successively_append_iff)

lemma walk_join:
  "walk e b \<Longrightarrow> b \<noteq> [] \<Longrightarrow> walk e (last b # rest) \<Longrightarrow> walk e (b @ rest)"
  by (auto simp add: walk_def successively_append_iff successively_Cons)

lemma sinks_walk_frame [simp]:
  "sinks_walk e (st\<lparr>active_phase_threads := a\<rparr>) = sinks_walk e st"
  "sinks_walk e (st\<lparr>saved_phase_paths := b\<rparr>) = sinks_walk e st"
  "sinks_walk e (st\<lparr>nonvariant_starts := c\<rparr>) = sinks_walk e st"
  "sinks_walk e (st\<lparr>thread_names := d\<rparr>) = sinks_walk e st"
  "sinks_walk e (st\<lparr>active_phases := f\<rparr>) = sinks_walk e st"
  "sinks_walk e (st\<lparr>diploid_region := g\<rparr>) = sinks_walk e st"
  "sinks_walk e (st\<lparr>cerr := h\<rparr>) = sinks_walk e st"
  "sinks_walk e (st\<lparr>batch_start := k\<rparr>) = sinks_walk e st"
  "sinks_walk e (st\<lparr>batch_limit := l\<rparr>) = sinks_walk e st"
  "sinks_walk e (st\<lparr>first_phase := m\<rparr>) = sinks_walk e st"
  by (simp_all add: sinks_walk_def)

lemma thread_walk_map: "thread_walk e (map gbwt_to_thread_mapping f) = walk e f"
  by (simp add: thread_walk_def walk_def successively_map gbwt_to_thread_mapping_def
      edge_exists_def)

lemma stream_walk_append:
  assumes "stream_walk e file" and "walk e f"
  shows "stream_walk e (file @ f @ [ENDMARKER])"
proof -
  let ?P = "\<lambda>a b. a = ENDMARKER \<or> b = ENDMARKER \<or> edge_exists e a b"
  have f: "successively ?P f"
    using assms(2) unfolding walk_def by (rule successively_mono) simp
  then have "successively ?P (f @ [ENDMARKER])"
    by (simp add: successively_append_iff)
  moreover have "file \<noteq> [] \<longrightarrow> ?P (last file) (hd (f @ [ENDMARKER]))"
    using assms(1) by (auto simp add: stream_walk_def)
  ultimately show ?thesis
    using assms(1) by (auto simp add: stream_walk_def successively_append_iff [where xs = "file"])
qed

lemma sinks_walk_insert:
  "sinks_walk e st \<Longrightarrow> walk e f \<Longrightarrow> sinks_walk e (sink_insert e f st)"
  by (simp add: sinks_walk_def sink_insert_def stream_walk_append thread_walk_map)

lemma sinks_walk_finish_phase:
  assumes "sinks_walk e st" and "walk e (active_phase_threads st ! (p - first_phase st))"
  shows "sinks_walk e (finish_phase e p name st)"
  using assms by (simp add: finish_phase_def Let_def sinks_walk_insert)

lemma buffers_finish_phase:
  "list_all (walk e) (active_phase_threads st) \<Longrightarrow>
   list_all (walk e) (active_phase_threads (finish_phase e p name st))"
  by (simp add: finish_phase_def Let_def list_all_update)

lemma list_all_nth: "list_all P xs \<Longrightarrow> i < length xs \<Longrightarrow> P (xs ! i)"
  by (simp add: list_all_length)

text \<open>The part of the invariant about walks.\<close>

lemma walks_finish_phase:
  assumes "p - first_phase st < length (active_phase_threads st)"
    and "list_all (walk e) (active_phase_threads st)" and "sinks_walk e st"
  shows "list_all (walk e) (active_phase_threads (finish_phase e p name st)) \<and>
         sinks_walk e (finish_phase e p name st)"
  using assms by (simp add: buffers_finish_phase sinks_walk_finish_phase list_all_nth)

lemma walks_append_node:
  assumes i: "p - first_phase st < length (active_phase_threads st)"
    and b: "list_all (walk e) (active_phase_threads st)" and s: "sinks_walk e st"
  shows "list_all (walk e) (active_phase_threads (append_node e p n st)) \<and>
         sinks_walk e (append_node e p n st)"
proof -
  let ?i = "p - first_phase st"
  let ?b = "active_phase_threads st ! ?i"
  have wb: "walk e ?b" by (rule list_all_nth [OF b i])
  show ?thesis
  proof (cases "?b \<noteq> [] \<and> \<not> edge_exists e (last ?b) n")
    case True
    let ?f = "finish_phase e p (thread_name (sample_names e ! (p div 2)) (path_name e)
                 (p mod 2) (saved_phase_paths st ! ?i)) st"
    have eq: "append_node e p n st = append_node_nocheck p n ?f"
      using True by (simp add: append_node_def Let_def)
    have fi: "active_phase_threads ?f ! ?i = []"
      by (rule finish_phase_buffer_empty [OF i])
    from walks_finish_phase [OF i b s] fi show ?thesis
      unfolding eq by (simp add: append_node_nocheck_def Let_def list_all_update sinks_walk_def)
  next
    case False
    then have eq: "append_node e p n st = append_node_nocheck p n st"
      by (auto simp add: append_node_def Let_def)
    have "walk e (?b @ [n])" using wb False by (auto simp add: walk_snoc)
    then show ?thesis
      unfolding eq using b s
      by (simp add: append_node_nocheck_def Let_def list_all_update sinks_walk_def)
  qed
qed


lemma reference_span_head:
  assumes "fst (reference_span e en c k) \<noteq> []"
  shows "k < length (by_start e) \<and>
         hd (fst (reference_span e en c k)) = node_side_to_gbwt (snd (by_start e ! k))"
proof (cases "c < en \<and> k < length (by_start e)")
  case True
  then show ?thesis using span_step [of c en k e] by simp
next
  case False
  then show ?thesis using assms by (simp add: span_stop)
qed

lemma reference_span_walk:
  assumes "reference_is_walk e"
  shows "walk e (fst (reference_span e en c k))"
  using assms
proof (induction e en c k rule: reference_span.induct)
  case (1 e en c k)
  show ?case
  proof (cases "c < en \<and> k < length (by_start e)")
    case False
    then show ?thesis by (simp add: span_stop)
  next
    case True
    then have t1: "c < en" and t2: "k < length (by_start e)" by simp_all
    let ?rest = "fst (reference_span e en (c + pi_node_length e k) (Suc k))"
    let ?n = "\<lambda>j. node_side_to_gbwt (snd (by_start e ! j))"
    have w: "walk e ?rest" by (rule "1.IH" [OF True "1.prems"])
    have "edge_exists e (?n k) (hd ?rest)" if ne: "?rest \<noteq> []"
    proof -
      from reference_span_head [OF ne]
      have sk: "Suc k < length (by_start e)" and h: "hd ?rest = ?n (Suc k)" by simp_all
      from "1.prems" have "successively (edge_exists e) (map (\<lambda>x. node_side_to_gbwt (snd x)) (by_start e))"
        by (simp add: reference_is_walk_def walk_def)
      from successively_nth [OF this, of k] sk show ?thesis
        by (simp add: h)
    qed
    with w show ?thesis
      unfolding span_step [OF t1 t2] by (auto simp add: walk_def successively_Cons)
  qed
qed

lemma walks_append_reference_mappings_until:
  assumes ok: "phase_ok p st" and r: "reference_is_walk e"
    and b: "list_all (walk e) (active_phase_threads st)" and s: "sinks_walk e st"
  shows "list_all (walk e) (active_phase_threads (append_reference_mappings_until e p en st)) \<and>
         sinks_walk e (append_reference_mappings_until e p en st)"
proof -
  let ?i = "p - first_phase st"
  let ?c = "nonvariant_starts st ! ?i"
  let ?span = "reference_span e en ?c (find_position e ?c)"
  have i: "?i < length (active_phase_threads st)"
    and j: "?i < length (nonvariant_starts st)"
    using ok by (simp_all add: phase_ok_def)
  note c = append_reference_mappings_until_span [OF i j, of e en]
  show ?thesis
  proof (cases "fst ?span")
    case Nil
    then show ?thesis using b s by (simp add: c Let_def)
  next
    case (Cons n rest)
    let ?st1 = "append_node e p n st"
    let ?b1 = "active_phase_threads ?st1 ! ?i"
    from walks_append_node [OF i b s, of n]
    have b1: "list_all (walk e) (active_phase_threads ?st1)" and s1: "sinks_walk e ?st1"
      by simp_all
    have i1: "?i < length (active_phase_threads ?st1)" using i by simp
    have w1: "walk e ?b1" by (rule list_all_nth [OF b1 i1])
    have l1: "?b1 \<noteq> [] \<and> last ?b1 = n"
      by (simp add: buffer_append_node [OF i])
    have "walk e (n # rest)"
      using reference_span_walk [OF r, of en ?c "find_position e ?c"] Cons by simp
    with w1 l1 have "walk e (?b1 @ rest)"
      by (auto intro: walk_join)
    then show ?thesis
      using b1 s1 Cons by (simp add: c Let_def list_all_update)
  qed
qed

lemma walks_foldl_append_node:
  assumes "p - first_phase st < length (active_phase_threads st)"
    and "list_all (walk e) (active_phase_threads st)" and "sinks_walk e st"
  shows "list_all (walk e) (active_phase_threads (foldl (\<lambda>st' m. append_node e p (f m) st') st ms)) \<and>
         sinks_walk e (foldl (\<lambda>st' m. append_node e p (f m) st') st ms)"
  using assms
proof (induction ms arbitrary: st)
  case Nil
  then show ?case by simp
next
  case (Cons m ms)
  let ?st1 = "append_node e p (f m) st"
  from walks_append_node [OF Cons.prems, of "f m"]
  have b1: "list_all (walk e) (active_phase_threads ?st1)" and s1: "sinks_walk e ?st1"
    by simp_all
  have i1: "p - first_phase ?st1 < length (active_phase_threads ?st1)"
    using Cons.prems(1) by simp
  from Cons.IH [OF i1 b1 s1] show ?case by simp
qed

text \<open>The part of the invariant about the vectors.\<close>

lemma same_except_wf:
  assumes "same_except i st st'"
  shows "wf_state e st' = wf_state e st"
    and "list_all (\<lambda>a. a \<le> 2) (active_phases st') = list_all (\<lambda>a. a \<le> 2) (active_phases st)"
  using assms by (simp_all add: same_except_def wf_state_def)

lemma wf_phase_ok:
  assumes "wf_state e st" and "batch_start st \<le> sample_number"
    and "sample_number < batch_limit st" and "phase_offset < 2"
  shows "phase_ok (sample_number * 2 + phase_offset) st"
    and "first_phase st \<le> 2 * sample_number"
    and "sample_number - batch_start st < length (active_phases st)"
    and "sample_number - batch_start st < length (diploid_region st)"
  using assms by (auto simp add: wf_state_def phase_ok_def)

text \<open>One phase at one variant keeps the invariant, whether it returns or throws.\<close>

lemma threads_inv_cursor [simp]:
  "length c = length (nonvariant_starts st) \<Longrightarrow>
   threads_inv e (st\<lparr>nonvariant_starts := c\<rparr>) = threads_inv e st"
  by (simp add: threads_inv_def wf_state_def)

lemma threads_inv_cerr [simp]: "threads_inv e (st\<lparr>cerr := w\<rparr>) = threads_inv e st"
  by (simp add: threads_inv_def wf_state_def)

lemma handle_phase_result:
  assumes res: "handle_phase e v var_name sample_number alt_index phase_offset st = Inr st'"
  shows "st' = st \<or> (\<exists>w. st' = st\<lparr>cerr := w\<rparr>) \<or>
         (\<exists>en ms c. st' =
            (foldl (\<lambda>s m. append_node e (sample_number * 2 + phase_offset) (mapping_to_gbwt m) s)
               (append_reference_mappings_until e (sample_number * 2 + phase_offset) en st) ms)
            \<lparr>nonvariant_starts :=
               (nonvariant_starts
                  (foldl (\<lambda>s m. append_node e (sample_number * 2 + phase_offset) (mapping_to_gbwt m) s)
                     (append_reference_mappings_until e (sample_number * 2 + phase_offset) en st) ms))
               [sample_number * 2 + phase_offset -
                first_phase
                  (foldl (\<lambda>s m. append_node e (sample_number * 2 + phase_offset) (mapping_to_gbwt m) s)
                     (append_reference_mappings_until e (sample_number * 2 + phase_offset) en st) ms)
                := c]\<rparr>)"
proof -
  let ?r = "alt_paths e (''_alt_'' @ var_name @ ''_0'')"
  let ?a = "alt_paths e (''_alt_'' @ var_name @ ''_'' @ string_of_int (alt_index ! phase_offset))"
  let ?i = "sample_number * 2 + phase_offset - first_phase st"
  show ?thesis
  proof (cases "alt_index ! phase_offset = - 1 \<or> alt_index ! phase_offset = 0")
    case True
    then have "st' = st" using res by (auto simp add: handle_phase_def)
    then show ?thesis by simp
  next
    case False
    then have called: "alt_index ! phase_offset \<noteq> - 1" "alt_index ! phase_offset \<noteq> 0"
      by simp_all
    show ?thesis
    proof (cases "first_ref_base_of e ?r ?a")
      case (Inl err)
      then show ?thesis
        using res called unfolding handle_phase_def Let_def by simp
    next
      case (Inr found)
      show ?thesis
      proof (cases found)
        case None
        then have "\<exists>w. st' = st\<lparr>cerr := w\<rparr>"
          using res called Inr unfolding handle_phase_def Let_def by auto
        then show ?thesis by simp
      next
        case (Some first_ref_base)
        show ?thesis
        proof (cases "nonvariant_starts st ! ?i \<le> first_ref_base \<or> \<not> discard_overlaps e")
          case True
          let ?st2 = "foldl (\<lambda>s m. append_node e (sample_number * 2 + phase_offset) (mapping_to_gbwt m) s)
               (append_reference_mappings_until e (sample_number * 2 + phase_offset) first_ref_base st)
               (case ?a of None \<Rightarrow> [] | Some p \<Rightarrow> p)"
          have "st' = ?st2\<lparr>nonvariant_starts := (nonvariant_starts ?st2)
                   [sample_number * 2 + phase_offset - first_phase ?st2 :=
                      last_ref_base_of e ?r first_ref_base]\<rparr>"
            using res called Inr Some True unfolding handle_phase_def Let_def
            by (simp del: foldl_append_node_frame)
          then show ?thesis by blast
        next
          case False
          then have "st' = st"
            using res called Inr Some unfolding handle_phase_def Let_def by auto
          then show ?thesis by simp
        qed
      qed
    qed
  qed
qed

lemma handle_phase_thrown:
  "handle_phase e v var_name sample_number alt_index phase_offset st = Inl thrown \<Longrightarrow>
   snd thrown = st"
  by (auto simp add: handle_phase_def Let_def split: if_splits sum.splits option.splits)

lemma handle_phase_inv:
  assumes ok: "phase_ok (sample_number * 2 + phase_offset) st"
    and r: "reference_is_walk e" and inv: "threads_inv e st"
  shows "threads_inv e (final_state (handle_phase e v var_name sample_number alt_index phase_offset st))"
proof -
  let ?p = "sample_number * 2 + phase_offset"
  let ?res = "handle_phase e v var_name sample_number alt_index phase_offset st"
  from inv have b: "list_all (walk e) (active_phase_threads st)" and s: "sinks_walk e st"
    by (simp_all add: threads_inv_def)
  show ?thesis
  proof (cases ?res)
    case (Inl thrown)
    with handle_phase_thrown [OF Inl] inv show ?thesis by (simp add: final_state_def)
  next
    case (Inr st')
    note se = handle_phase_same_except [OF ok Inr]
    have alt: "list_all (walk e) (active_phase_threads
                 (foldl (\<lambda>s m. append_node e ?p (mapping_to_gbwt m) s)
                    (append_reference_mappings_until e ?p en st) ms)) \<and>
               sinks_walk e (foldl (\<lambda>s m. append_node e ?p (mapping_to_gbwt m) s)
                    (append_reference_mappings_until e ?p en st) ms)" for en ms
    proof -
      let ?st1 = "append_reference_mappings_until e ?p en st"
      from walks_append_reference_mappings_until [OF ok r b s, where en = en]
      have b1: "list_all (walk e) (active_phase_threads ?st1)" and s1: "sinks_walk e ?st1"
        by simp_all
      have i1: "?p - first_phase ?st1 < length (active_phase_threads ?st1)"
        using ok by (simp add: phase_ok_def)
      show ?thesis by (rule walks_foldl_append_node [OF i1 b1 s1])
    qed
    have walks: "list_all (walk e) (active_phase_threads st') \<and> sinks_walk e st'"
      using handle_phase_result [OF Inr] b s alt by auto
    with same_except_wf(1) [OF se, of e] same_except_wf(2) [OF se] inv show ?thesis
      by (simp add: final_state_def Inr threads_inv_def)
  qed
qed

subsection \<open>The invariant through a variant and a batch\<close>

lemma fold_err_inv:
  assumes step: "\<And>x s. x \<in> set xs \<Longrightarrow> I s \<Longrightarrow> I (final_state (f x s))"
    and start: "I s"
  shows "I (final_state (fold_err f xs s))"
  using assms
proof (induction xs arbitrary: s)
  case Nil
  then show ?case by (simp add: final_state_def)
next
  case (Cons x xs)
  show ?case
  proof (cases "f x s")
    case (Inl thrown)
    with Cons.prems(1) [of x s] Cons.prems(2) show ?thesis
      by (simp add: final_state_def)
  next
    case (Inr s')
    with Cons.prems(1) [of x s] Cons.prems(2) have "I s'"
      by (simp add: final_state_def)
    with Cons.IH [of s'] Cons.prems(1) Inr show ?thesis
      by simp
  qed
qed

lemma foldl_inv:
  assumes "\<And>x s. x \<in> set xs \<Longrightarrow> I s \<Longrightarrow> I (f s x)" and "I s"
  shows "I (foldl f s xs)"
  using assms by (induction xs arbitrary: s) simp_all

lemma same_except_batch_inv:
  assumes se: "same_except i st st'" and inv: "batch_inv e first limit st"
    and walks: "list_all (walk e) (active_phase_threads st')" "sinks_walk e st'"
  shows "batch_inv e first limit st'"
  using inv walks same_except_wf(1) [OF se, of e] same_except_wf(2) [OF se]
    same_except_samples [OF se]
  by (simp add: batch_inv_def threads_inv_def)

lemma batch_inv_phase_ok:
  assumes "batch_inv e first limit st" and "first \<le> sample_number"
    and "sample_number < limit" and "phase_offset < 2"
  shows "phase_ok (sample_number * 2 + phase_offset) st"
    and "first_phase st \<le> 2 * sample_number"
    and "sample_number - batch_start st < length (active_phases st)"
    and "sample_number - batch_start st < length (diploid_region st)"
  using assms wf_phase_ok [of e st sample_number phase_offset]
  by (simp_all add: batch_inv_def threads_inv_def)

lemma batch_inv_walks:
  "batch_inv e first limit st \<Longrightarrow>
   list_all (walk e) (active_phase_threads st) \<and> sinks_walk e st"
  by (simp add: batch_inv_def threads_inv_def)

lemma handle_phase_batch_inv:
  assumes inv: "batch_inv e first limit st" and r: "reference_is_walk e"
    and sn: "first \<le> sample_number" "sample_number < limit" and po: "phase_offset < 2"
  shows "batch_inv e first limit
           (final_state (handle_phase e v var_name sample_number alt_index phase_offset st))"
proof -
  note ok = batch_inv_phase_ok(1) [OF inv sn po]
  from inv have ti: "threads_inv e st" by (simp add: batch_inv_def)
  note hi = handle_phase_inv [OF ok r ti, of v var_name alt_index]
  show ?thesis
  proof (cases "handle_phase e v var_name sample_number alt_index phase_offset st")
    case (Inl thrown)
    with handle_phase_thrown [OF Inl] inv show ?thesis by (simp add: final_state_def)
  next
    case (Inr st')
    from same_except_samples [OF handle_phase_same_except [OF ok Inr]] hi inv
    show ?thesis by (simp add: Inr final_state_def batch_inv_def)
  qed
qed

lemma close_phase_batch_inv:
  assumes inv: "batch_inv e first limit st" and r: "reference_is_walk e"
    and sn: "first \<le> sample_number" "sample_number < limit" and po: "phase_offset < 2"
  shows "batch_inv e first limit (close_phase e v sample_number phase_offset st)"
proof -
  let ?p = "sample_number * 2 + phase_offset"
  let ?st1 = "append_reference_mappings_until e ?p (to_size_t (position v)) st"
  note ok = batch_inv_phase_ok(1) [OF inv sn po]
  note fp = batch_inv_phase_ok(2) [OF inv sn po]
  note w = batch_inv_walks [OF inv]
  from walks_append_reference_mappings_until [OF ok r, of "to_size_t (position v)"] w
  have b1: "list_all (walk e) (active_phase_threads ?st1)" and s1: "sinks_walk e ?st1"
    by simp_all
  have i1: "?p - first_phase ?st1 < length (active_phase_threads ?st1)"
    using ok by (simp add: phase_ok_def)
  note f = walks_finish_phase [OF i1 b1 s1]
  have "list_all (walk e) (active_phase_threads (close_phase e v sample_number phase_offset st)) \<and>
        sinks_walk e (close_phase e v sample_number phase_offset st)"
    unfolding close_phase_eq [OF ok fp] using f by simp
  with same_except_batch_inv [OF close_phase_props(1) [OF ok fp] inv] show ?thesis
    by simp
qed

lemma batch_inv_cursors:
  "batch_inv e first limit st \<Longrightarrow> length c = length (nonvariant_starts st) \<Longrightarrow>
   batch_inv e first limit (st\<lparr>nonvariant_starts := c\<rparr>)"
  by (simp add: batch_inv_def)

lemma batch_inv_active_le:
  assumes "batch_inv e first limit st" and "first \<le> sample_number" and "sample_number < limit"
  shows "nat (active_phases st ! (sample_number - batch_start st)) \<le> 2"
proof -
  from assms have "list_all (\<lambda>a. a \<le> 2) (active_phases st)"
    and "sample_number - batch_start st < length (active_phases st)"
    by (auto simp add: batch_inv_def threads_inv_def wf_state_def)
  from list_all_nth [OF this] show ?thesis by simp
qed

lemma break_paths_batch_inv:
  assumes inv: "batch_inv e first limit st" and r: "reference_is_walk e"
    and sn: "first \<le> sample_number" "sample_number < limit"
  shows "batch_inv e first limit (break_paths e v sample_number is_diploid st)"
proof -
  let ?n = "nat (active_phases st ! (sample_number - batch_start st))"
  let ?st1 = "foldl (\<lambda>st' phase_offset. close_phase e v sample_number phase_offset st') st [0 ..< ?n]"
  have n2: "?n \<le> 2" by (rule batch_inv_active_le [OF inv sn])
  have "batch_inv e first limit ?st1"
  proof (rule foldl_inv [where I = "batch_inv e first limit"])
    fix po s
    assume "po \<in> set [0 ..< ?n]" and "batch_inv e first limit s"
    with n2 show "batch_inv e first limit (close_phase e v sample_number po s)"
      by (intro close_phase_batch_inv r sn) simp_all
  qed (rule inv)
  then show ?thesis
    unfolding break_paths_def Let_def by (simp add: batch_inv_cursors)
qed

lemma batch_inv_samples:
  assumes inv: "batch_inv e first limit st" and a: "a \<le> 2"
  shows "batch_inv e first limit
           (st\<lparr>active_phases := (active_phases st)[s := a],
               diploid_region := (diploid_region st)[s := d]\<rparr>)"
  using assms
  by (simp add: batch_inv_def threads_inv_def wf_state_def list_all_update)

lemma handle_sample_batch_inv:
  assumes inv: "batch_inv e first limit st" and r: "reference_is_walk e"
    and sn: "first \<le> sample_number" "sample_number < limit"
  shows "batch_inv e first limit (final_state (handle_sample e v var_name sample_number st))"
proof -
  let ?s = "sample_number - batch_start st"
  let ?g = "getGenotype v (sample_names e ! sample_number)"
  show ?thesis
  proof (cases "parse_genotype (diploid_region st ! ?s) ?g")
    case (Inl err)
    then show ?thesis using inv by (simp add: handle_sample_def Let_def final_state_def)
  next
    case (Inr parsed)
    obtain alt_index new_active_phases is_diploid
      where p: "parsed = (alt_index, new_active_phases, is_diploid)"
      by (cases parsed) auto
    from parse_genotype_shape [OF Inr [unfolded p]]
    have le: "new_active_phases \<le> 2" and ge: "nat new_active_phases \<le> 2" by auto
    let ?st1 = "if is_diploid \<noteq> diploid_region st ! ?s \<or>
                   (new_active_phases = 0 \<and> active_phases st ! ?s > 0)
                then break_paths e v sample_number is_diploid st else st"
    let ?st2 = "?st1\<lparr>active_phases := (active_phases ?st1)[?s := new_active_phases],
                      diploid_region := (diploid_region ?st1)[?s := is_diploid]\<rparr>"
    have i1: "batch_inv e first limit ?st1"
      using inv break_paths_batch_inv [OF inv r sn] by simp
    have i2: "batch_inv e first limit ?st2"
      by (rule batch_inv_samples [OF i1 le])
    have bs: "batch_start ?st1 = batch_start st" using i1 inv by (simp add: batch_inv_def)
    have len: "?s < length (active_phases ?st1)"
      using batch_inv_phase_ok(3) [OF i1 sn, of 0] bs by simp
    have n: "nat (active_phases ?st2 ! ?s) = nat new_active_phases" using len by simp
    have "batch_inv e first limit
            (final_state (fold_err (handle_phase e v var_name sample_number alt_index)
                            [0 ..< nat new_active_phases] ?st2))"
    proof (rule fold_err_inv [where I = "batch_inv e first limit"])
      fix po s
      assume "po \<in> set [0 ..< nat new_active_phases]" and "batch_inv e first limit s"
      with ge show "batch_inv e first limit
          (final_state (handle_phase e v var_name sample_number alt_index po s))"
        by (intro handle_phase_batch_inv r sn) simp_all
    qed (rule i2)
    then show ?thesis
      unfolding handle_sample_def Let_def Inr p using n by simp
  qed
qed

lemma handle_variant_batch_inv:
  assumes inv: "batch_inv e first limit st" and r: "reference_is_walk e"
  shows "batch_inv e first limit (final_state (handle_variant e v st))"
proof -
  have range: "[batch_start st ..< batch_limit st] = [first ..< limit]"
    using inv by (simp add: batch_inv_def)
  show ?thesis
    unfolding handle_variant_def range
  proof (rule fold_err_inv [where I = "batch_inv e first limit"])
    fix sn s
    assume "sn \<in> set [first ..< limit]" and "batch_inv e first limit s"
    then show "batch_inv e first limit (final_state (handle_sample e v (make_variant_id e v) sn s))"
      by (intro handle_sample_batch_inv r) simp_all
  qed (rule inv)
qed


lemma extend_and_finish_batch_inv:
  assumes inv: "batch_inv e first limit st" and r: "reference_is_walk e"
    and sn: "first \<le> sample_number" "sample_number < limit" and po: "phase_offset < 2"
  shows "batch_inv e first limit
           (finish_phase e (sample_number * 2 + phase_offset) name
              (append_reference_mappings_until e (sample_number * 2 + phase_offset) en st))"
proof -
  let ?p = "sample_number * 2 + phase_offset"
  let ?st1 = "append_reference_mappings_until e ?p en st"
  note ok = batch_inv_phase_ok(1) [OF inv sn po]
  note w = batch_inv_walks [OF inv]
  from walks_append_reference_mappings_until [OF ok r, of en] w
  have b1: "list_all (walk e) (active_phase_threads ?st1)" and s1: "sinks_walk e ?st1"
    by simp_all
  have i1: "?p - first_phase ?st1 < length (active_phase_threads ?st1)"
    using ok by (simp add: phase_ok_def)
  note f = walks_finish_phase [OF i1 b1 s1, of name]
  have se1: "same_except (?p - first_phase st) st ?st1"
    by (rule append_reference_mappings_until_same_except [OF ok])
  have f1: "first_phase ?st1 = first_phase st" using ok by simp
  have se2: "same_except (?p - first_phase st) ?st1 (finish_phase e ?p name ?st1)"
    using finish_phase_same_except [of ?p ?st1 e name] by (simp add: f1)
  from same_except_batch_inv [OF same_except_trans [OF se1 se2] inv] f show ?thesis
    by simp
qed

lemma finish_sample_batch_inv:
  assumes inv: "batch_inv e first limit st" and r: "reference_is_walk e"
    and sn: "first \<le> sample_number" "sample_number < limit"
  shows "batch_inv e first limit (finish_sample e sample_number st)"
proof -
  let ?s = "sample_number - batch_start st"
  let ?a = "if diploid_region st ! ?s then 2 else (1::int)"
  let ?st1 = "st\<lparr>active_phases := (active_phases st)[?s := ?a]\<rparr>"
  have i1: "batch_inv e first limit ?st1"
    using inv by (simp add: batch_inv_def threads_inv_def wf_state_def list_all_update)
  have len: "?s < length (active_phases st)"
    by (rule batch_inv_phase_ok(3) [OF inv sn, of 0]) simp
  have n: "nat (active_phases ?st1 ! ?s) \<le> 2" using len by simp
  have "batch_inv e first limit
     (foldl (\<lambda>st' phase_offset.
           finish_phase e (sample_number * 2 + phase_offset)
             (thread_name (sample_names e ! sample_number) (path_name e) phase_offset
                (saved_phase_paths
                   (append_reference_mappings_until e (sample_number * 2 + phase_offset)
                      (path_length e) st') !
                 (sample_number * 2 + phase_offset -
                  first_phase (append_reference_mappings_until e
                     (sample_number * 2 + phase_offset) (path_length e) st'))))
             (append_reference_mappings_until e (sample_number * 2 + phase_offset)
                (path_length e) st'))
         ?st1 [0 ..< nat (active_phases ?st1 ! ?s)])"
  proof (rule foldl_inv [where I = "batch_inv e first limit"])
    fix po s
    assume "po \<in> set [0 ..< nat (active_phases ?st1 ! ?s)]" and "batch_inv e first limit s"
    with n show "batch_inv e first limit
        (finish_phase e (sample_number * 2 + po)
           (thread_name (sample_names e ! sample_number) (path_name e) po
              (saved_phase_paths
                 (append_reference_mappings_until e (sample_number * 2 + po) (path_length e) s) !
               (sample_number * 2 + po -
                first_phase (append_reference_mappings_until e (sample_number * 2 + po)
                   (path_length e) s))))
           (append_reference_mappings_until e (sample_number * 2 + po) (path_length e) s))"
      by (intro extend_and_finish_batch_inv r sn) simp_all
  qed (rule i1)
  then show ?thesis
    unfolding finish_sample_def Let_def .
qed

lemma process_batch_batch_inv:
  assumes inv: "batch_inv e first limit st" and r: "reference_is_walk e"
  shows "batch_inv e first limit (final_state (process_batch e stream st))"
proof -
  let ?f = "\<lambda>var. handle_variant e (var\<lparr>position := position var - 1\<rparr>)"
  have scan: "batch_inv e first limit (final_state (fold_err ?f (processed_variants e stream) st))"
    by (rule fold_err_inv [where I = "batch_inv e first limit"])
       (simp_all add: handle_variant_batch_inv r inv)
  show ?thesis
  proof (cases "fold_err ?f (processed_variants e stream) st")
    case (Inl thrown)
    with scan show ?thesis by (simp add: process_batch_def final_state_def)
  next
    case (Inr st1)
    with scan have i1: "batch_inv e first limit st1" by (simp add: final_state_def)
    then have range: "[batch_start st1 ..< batch_limit st1] = [first ..< limit]"
      by (simp add: batch_inv_def)
    have "batch_inv e first limit
            (foldl (\<lambda>st' sample_number. finish_sample e sample_number st') st1 [first ..< limit])"
      by (rule foldl_inv [where I = "batch_inv e first limit"])
         (simp_all add: finish_sample_batch_inv r i1)
    with i1 show ?thesis
      by (simp add: process_batch_def Inr range final_state_def)
  qed
qed

lemma next_batch_inv: "threads_inv e st \<Longrightarrow> threads_inv e (next_batch e st)"
  by (simp add: threads_inv_def wf_state_def next_batch_def sinks_walk_def list_all_length)

lemma batch_loop_inv:
  assumes run: "batch_loop e stream st = Some res"
    and r: "reference_is_walk e" and ti: "threads_inv e st"
  shows "threads_inv e (final_state res)"
proof -
  have "reference_is_walk e \<longrightarrow> threads_inv e st \<longrightarrow> threads_inv e (final_state res)"
  proof (rule batch_loop.raw_induct
      [where P = "\<lambda>e stream st res.
         reference_is_walk e \<longrightarrow> threads_inv e st \<longrightarrow> threads_inv e (final_state res)"],
      goal_cases)
    case (1 loop e stream st res)
    note IH = 1(1) and eq = 1(2)
    show ?case
    proof (intro impI)
      assume r: "reference_is_walk e" and ti: "threads_inv e st"
      from ti have bi: "batch_inv e (batch_start st) (batch_limit st) st"
        by (simp add: batch_inv_def)
      note pb = process_batch_batch_inv [OF bi r, of stream]
      show "threads_inv e (final_state res)"
      proof (cases "batch_start st < sample_range_second e")
        case False
        with eq ti show ?thesis by (auto simp add: final_state_def)
      next
        case True
        show ?thesis
        proof (cases "process_batch e stream st")
          case (Inl thrown)
          with True eq pb show ?thesis by (auto simp add: final_state_def batch_inv_def)
        next
          case (Inr st1)
          with pb have "threads_inv e st1" by (simp add: final_state_def batch_inv_def)
          then have n: "threads_inv e (next_batch e st1)" by (rule next_batch_inv)
          from True Inr eq have "loop e stream (next_batch e st1) = Some res" by simp
          from IH [OF this] r n show ?thesis by simp
        qed
      qed
    qed
  next
    show "batch_loop e stream st = Some res" by (rule run)
  qed
  with r ti show ?thesis by simp
qed

lemma batch_loop_returns:
  assumes r: "reference_is_walk e" and pos: "0 < samples_in_batch e"
  shows "threads_inv e st \<Longrightarrow>
         batch_limit st = min (batch_start st + samples_in_batch e) (sample_range_second e) \<Longrightarrow>
         \<exists>res. batch_loop e stream st = Some res"
proof (induction "sample_range_second e - batch_start st" arbitrary: st rule: less_induct)
  case less
  from less.prems(1) have bi: "batch_inv e (batch_start st) (batch_limit st) st"
    by (simp add: batch_inv_def)
  note pb = process_batch_batch_inv [OF bi r, of stream]
  show ?case
  proof (cases "batch_start st < sample_range_second e")
    case False
    then show ?thesis by (subst batch_loop.simps) simp
  next
    case True
    show ?thesis
    proof (cases "process_batch e stream st")
      case (Inl thrown)
      with True show ?thesis by (subst batch_loop.simps) simp
    next
      case (Inr st1)
      let ?st = "next_batch e st1"
      from pb Inr have b1: "batch_inv e (batch_start st) (batch_limit st) st1"
        by (simp add: final_state_def)
      then have ti: "threads_inv e ?st"
        by (simp add: batch_inv_def next_batch_inv)
      have step: "batch_loop e stream st = batch_loop e stream ?st"
        using True Inr by (subst batch_loop.simps) simp
      have smaller: "sample_range_second e - batch_start ?st < sample_range_second e - batch_start st"
        using True pos less.prems(2) b1 by (simp add: next_batch_def batch_inv_def)
      have lim: "batch_limit ?st = min (batch_start ?st + samples_in_batch e) (sample_range_second e)"
        by (simp add: next_batch_def)
      from less.hyps [OF smaller ti lim] show ?thesis
        by (simp add: step)
    qed
  qed
qed

lemma init_path_inv: "sinks_walk e st \<Longrightarrow> threads_inv e (init_path e st)"
  by (simp add: threads_inv_def wf_state_def init_path_def sinks_walk_def list_all_length)

subsection \<open>The close at a change of ploidy\<close>

text \<open>What \<open>break_paths\<close> does to a sample with \<open>n\<close> active phases.\<close>

lemma break_paths_closes:
  assumes fp: "first_phase st \<le> 2 * sample_number"
    and ok0: "phase_ok (sample_number * 2) st"
    and ok1: "phase_ok (sample_number * 2 + 1) st"
    and n: "n = nat (active_phases st ! (sample_number - batch_start st))"
    and n2: "n \<le> 2"
    and pid: "pid = 2 * sample_number - first_phase st"
    and mx: "mx = max (nonvariant_starts st ! pid) (nonvariant_starts st ! (pid + 1))"
    and st': "st' = break_paths e v sample_number is_diploid st"
  shows "(\<forall>po<n. active_phase_threads st' ! (pid + po) = []) \<and>
         sinks st' = hand_over e (sinks st)
           (concat (map (\<lambda>po. closing_fragments e (active_phase_threads st ! (pid + po))
                                (reference_visits e st (pid + po) (to_size_t (position v))))
                     [0 ..< n])) \<and>
         (is_diploid = diploid_region st ! (sample_number - batch_start st) \<longrightarrow>
            nonvariant_starts st' = nonvariant_starts st) \<and>
         (is_diploid \<noteq> diploid_region st ! (sample_number - batch_start st) \<longrightarrow>
            nonvariant_starts st' = (nonvariant_starts st)[pid := mx, pid + 1 := mx])"
proof -
  let ?st1 = "foldl (\<lambda>st' phase_offset. close_phase e v sample_number phase_offset st') st [0 ..< n]"
  note l = close_loop [OF fp ok0 ok1 n2 pid refl, of e v]
  have eq: "st' = (if is_diploid \<noteq> diploid_region st ! (sample_number - batch_start st)
                   then ?st1\<lparr>nonvariant_starts := (nonvariant_starts st)[pid := mx, pid + 1 := mx]\<rparr>
                   else ?st1)"
    unfolding st' break_paths_def Let_def n [symmetric] pid [symmetric]
    by (simp add: l(3) l(4) mx)
  show ?thesis
    unfolding eq using l(1) l(2) l(3) by simp
qed

lemma break_paths_frame:
  assumes fp: "first_phase st \<le> 2 * sample_number"
    and ok0: "phase_ok (sample_number * 2) st"
    and ok1: "phase_ok (sample_number * 2 + 1) st"
    and n2: "nat (active_phases st ! (sample_number - batch_start st)) \<le> 2"
  shows "active_phases (break_paths e v sample_number is_diploid st) = active_phases st"
    and "diploid_region (break_paths e v sample_number is_diploid st) = diploid_region st"
proof -
  note l = close_loop [OF fp ok0 ok1 n2 refl refl, of e v]
  show "active_phases (break_paths e v sample_number is_diploid st) = active_phases st"
    and "diploid_region (break_paths e v sample_number is_diploid st) = diploid_region st"
    unfolding break_paths_def Let_def by (simp_all add: l(4) l(6))
qed

lemma fold_err_append:
  "fold_err f (xs @ ys) s =
     (case fold_err f xs s of Inl thrown \<Rightarrow> Inl thrown | Inr s' \<Rightarrow> fold_err f ys s')"
  by (induction xs arbitrary: s) (simp_all split: sum.splits)

text \<open>\<open>handle_variant\<close> reaches a sample of the batch in the state that the samples before
  it have left, and goes on with the samples after it.\<close>

lemma handle_variant_at_sample:
  assumes reach: "fold_err (handle_sample e v (make_variant_id e v))
                    [batch_start st0 ..< sample_number] st0 = Inr st"
    and inb: "batch_start st0 \<le> sample_number" "sample_number < batch_limit st0"
  shows "handle_variant e v st0 =
     (case handle_sample e v (make_variant_id e v) sample_number st of
        Inl thrown \<Rightarrow> Inl thrown
      | Inr st' \<Rightarrow>
          fold_err (handle_sample e v (make_variant_id e v))
            [Suc sample_number ..< batch_limit st0] st')"
proof -
  have "[batch_start st0 ..< batch_limit st0] =
      [batch_start st0 ..< sample_number] @ sample_number # [Suc sample_number ..< batch_limit st0]"
    using inb by (metis le_add_diff_inverse less_imp_le_nat upt_add_eq_append upt_conv_Cons)
  then show ?thesis
    by (simp add: handle_variant_def fold_err_append reach)
qed

section \<open>The claims\<close>

subsection \<open>The split rule of \<open>append_node\<close>\<close>

text \<open>
  Claim C2. Let \<open>buf\<close> be the buffer of the phase. When \<open>buf\<close> is not empty and the graph
  has no edge from its last node visit to \<open>next\<close>, \<open>append_node\<close> hands \<open>buf\<close> to the sink
  in use, records the name with the phase's counter, counts the fragment, and leaves the
  buffer \<open>[next]\<close>. When \<open>buf\<close> is empty or the edge exists, the buffer becomes
  \<open>buf @ [next]\<close> and neither the sinks, the names nor the counters change.
\<close>

theorem append_node_split_rule:
  assumes i_def: "i = phase_number - first_phase st"
    and inrange: "i < length (active_phase_threads st)"
    and buf_def: "buf = active_phase_threads st ! i"
    and st'_def: "st' = append_node e phase_number next st"
  shows "(buf \<noteq> [] \<and> \<not> edge_exists e (last buf) next \<longrightarrow>
            active_phase_threads st' ! i = [next] \<and>
            (gbwt_name e \<noteq> [] \<longrightarrow> gbwt_builder st' = gbwt_builder st @ [(buf, True)]) \<and>
            (gbwt_name e = [] \<and> binary_haplotype_output e \<noteq> [] \<longrightarrow>
               binary_file st' = binary_file st @ buf @ [ENDMARKER]) \<and>
            (gbwt_name e = [] \<and> binary_haplotype_output e = [] \<longrightarrow>
               all_phase_threads st' = all_phase_threads st @ [map gbwt_to_thread_mapping buf]) \<and>
            thread_names st' = thread_names st @
               [thread_name (sample_names e ! (phase_number div 2)) (path_name e)
                  (phase_number mod 2) (saved_phase_paths st ! i)] \<and>
            saved_phase_paths st' = (saved_phase_paths st)[i := saved_phase_paths st ! i + 1]) \<and>
         (buf = [] \<or> edge_exists e (last buf) next \<longrightarrow>
            active_phase_threads st' ! i = buf @ [next] \<and>
            gbwt_builder st' = gbwt_builder st \<and> binary_file st' = binary_file st \<and>
            all_phase_threads st' = all_phase_threads st \<and> thread_names st' = thread_names st \<and>
            saved_phase_paths st' = saved_phase_paths st)"
  using inrange unfolding st'_def buf_def i_def
  by (auto simp add: append_node_def append_node_nocheck_def Let_def finish_phase_nonempty)

theorem append_node_split_rule_witness:
  "active_phase_threads (append_node ex_env 0 6 (ex_state [2] [] 3 0 2 True)) ! 0 = [6] \<and>
   gbwt_builder (append_node ex_env 0 6 (ex_state [2] [] 3 0 2 True)) = [([2], True)] \<and>
   thread_names (append_node ex_env 0 6 (ex_state [2] [] 3 0 2 True)) = [''_thread_s0_c_0_0''] \<and>
   active_phase_threads (append_node ex_env 0 4 (ex_state [2] [] 3 0 2 True)) ! 0 = [2, 4] \<and>
   gbwt_builder (append_node ex_env 0 4 (ex_state [2] [] 3 0 2 True)) = [] \<and>
   thread_names (append_node ex_env 0 4 (ex_state [2] [] 3 0 2 True)) = []"
proof -
  let ?st = "ex_state [2] [] 3 0 2 True"
  have h1: "(0::nat) = 0 - first_phase ?st" by (simp add: ex_state_def)
  have h2: "0 < length (active_phase_threads ?st)" by (simp add: ex_state_def)
  have h3: "[2] = active_phase_threads ?st ! 0" by (simp add: ex_state_def)
  have no_edge: "[2::nat] \<noteq> [] \<and> \<not> edge_exists ex_env (last [2]) 6" by code_simp
  have edge: "[2::nat] = [] \<or> edge_exists ex_env (last [2]) 4" by code_simp
  have g: "gbwt_name ex_env \<noteq> []" by (simp add: ex_env_def)
  have n: "thread_name (sample_names ex_env ! (0 div 2)) (path_name ex_env) (0 mod 2)
             (saved_phase_paths ?st ! 0) = ''_thread_s0_c_0_0''" by code_simp
  have s: "gbwt_builder ?st = [] \<and> thread_names ?st = []" by (simp add: ex_state_def)
  from append_node_split_rule [OF h1 h2 h3 refl, of ex_env 6] no_edge g n s
  have split: "active_phase_threads (append_node ex_env 0 6 ?st) ! 0 = [6] \<and>
     gbwt_builder (append_node ex_env 0 6 ?st) = [([2], True)] \<and>
     thread_names (append_node ex_env 0 6 ?st) = [''_thread_s0_c_0_0'']"
    by simp
  from append_node_split_rule [OF h1 h2 h3 refl, of ex_env 4] edge s
  have keep: "active_phase_threads (append_node ex_env 0 4 ?st) ! 0 = [2, 4] \<and>
     gbwt_builder (append_node ex_env 0 4 ?st) = [] \<and>
     thread_names (append_node ex_env 0 4 ?st) = []"
    by simp
  from split keep show ?thesis by simp
qed

subsection \<open>Genotype classification\<close>

lemma string_find_absent: "c \<notin> set s \<Longrightarrow> string_find s c = None"
  by (simp add: string_find_def)

lemma string_find_first: "c \<notin> set l \<Longrightarrow> string_find (l @ c # r) c = Some (length l)"
  by (induction l) (auto simp add: string_find_def)

lemma classify_haploid:
  "CHR ''|'' \<notin> set genotype \<Longrightarrow> CHR ''/'' \<notin> set genotype \<Longrightarrow>
   classify_genotype region genotype = (1, False, length genotype)"
  by (simp add: classify_genotype_def string_find_absent)

lemma classify_diploid:
  "l \<noteq> [] \<Longrightarrow> r \<noteq> [] \<Longrightarrow> CHR ''|'' \<notin> set l \<Longrightarrow>
   classify_genotype region (l @ CHR ''|'' # r) = (2, True, length l)"
  by (simp add: classify_genotype_def string_find_first)

text \<open>
  Claim C7. An empty genotype gives no active phase (and keeps the ploidy of the region).
  A non-empty genotype without \<open>|\<close> and without \<open>/\<close> is haploid with one active phase.
  A genotype whose first \<open>|\<close> has the non-empty strings \<open>l\<close> before it and \<open>r\<close> after it is
  diploid with two active phases. The allele token \<open>.\<close> gives the index \<open>-1\<close>, the mark of
  a missing call; any other token is read by \<open>std::stoi\<close>, whose exception ends the parse.
\<close>

theorem genotype_classification:
  "parse_genotype region [] = Inr ([- 1, - 1], 0, region) \<and>
   (genotype \<noteq> [] \<and> CHR ''|'' \<notin> set genotype \<and> CHR ''/'' \<notin> set genotype \<longrightarrow>
      classify_genotype region genotype = (1, False, length genotype) \<and>
      parse_genotype region genotype =
        (case parse_alt genotype of
           Inl err \<Rightarrow> Inl err
         | Inr a \<Rightarrow> Inr ([a, - 1], 1, False))) \<and>
   (l \<noteq> [] \<and> r \<noteq> [] \<and> CHR ''|'' \<notin> set l \<longrightarrow>
      classify_genotype region (l @ CHR ''|'' # r) = (2, True, length l) \<and>
      parse_genotype region (l @ CHR ''|'' # r) =
        (case parse_alt l of
           Inl err \<Rightarrow> Inl err
         | Inr a0 \<Rightarrow>
             (case parse_alt r of
                Inl err \<Rightarrow> Inl err
              | Inr a1 \<Rightarrow> Inr ([a0, a1], 2, True)))) \<and>
   parse_alt ''.'' = Inr (- 1)"
proof (intro conjI impI)
  show "parse_genotype region [] = Inr ([- 1, - 1], 0, region)"
    by (simp add: parse_genotype_def)
next
  assume h: "genotype \<noteq> [] \<and> CHR ''|'' \<notin> set genotype \<and> CHR ''/'' \<notin> set genotype"
  then show c: "classify_genotype region genotype = (1, False, length genotype)"
    by (simp add: classify_haploid)
  from h show "parse_genotype region genotype =
        (case parse_alt genotype of Inl err \<Rightarrow> Inl err | Inr a \<Rightarrow> Inr ([a, - 1], 1, False))"
    by (simp add: parse_genotype_def c split: sum.splits)
next
  assume h: "l \<noteq> [] \<and> r \<noteq> [] \<and> CHR ''|'' \<notin> set l"
  then show c: "classify_genotype region (l @ CHR ''|'' # r) = (2, True, length l)"
    by (simp add: classify_diploid)
  show "parse_genotype region (l @ CHR ''|'' # r) =
        (case parse_alt l of
           Inl err \<Rightarrow> Inl err
         | Inr a0 \<Rightarrow>
             (case parse_alt r of
                Inl err \<Rightarrow> Inl err
              | Inr a1 \<Rightarrow> Inr ([a0, a1], 2, True)))"
    by (simp add: parse_genotype_def c split: sum.splits)
next
  show "parse_alt ''.'' = Inr (- 1)"
    by (simp add: parse_alt_def)
qed

theorem genotype_classification_witness:
  "classify_genotype False ''0|.'' = (2, True, 1) \<and>
   parse_genotype False ''0|.'' = Inr ([0, - 1], 2, True) \<and>
   classify_genotype True ''1'' = (1, False, 1) \<and>
   parse_genotype True ''1'' = Inr ([1, - 1], 1, False)"
proof -
  have a0: "parse_alt ''0'' = Inr 0" by code_simp
  have a1: "parse_alt ''1'' = Inr 1" by code_simp
  have h: "''1'' \<noteq> [] \<and> CHR ''|'' \<notin> set ''1'' \<and> CHR ''/'' \<notin> set ''1''" by simp
  have d: "''0'' \<noteq> [] \<and> ''.'' \<noteq> [] \<and> CHR ''|'' \<notin> set ''0''" by simp
  from genotype_classification [of True "''1''" "''0''" "''.''"] h a1
  have hap: "classify_genotype True ''1'' = (1, False, 1) \<and>
     parse_genotype True ''1'' = Inr ([1, - 1], 1, False)" by simp
  from genotype_classification [of False "''1''" "''0''" "''.''"] d a0
  have dip: "classify_genotype False ''0|.'' = (2, True, 1) \<and>
     parse_genotype False ''0|.'' = Inr ([0, - 1], 2, True)" by simp
  from hap dip show ?thesis by simp
qed

subsection \<open>A contig without variants\<close>

lemma process_batch_no_variants:
  "processed_variants e stream = [] \<Longrightarrow> process_batch e stream st = Inr st"
  by (simp add: process_batch_def)

lemma batch_loop_no_variants:
  assumes pv: "processed_variants e stream = []" and pos: "0 < samples_in_batch e"
  shows "batch_limit st = min (batch_start st + samples_in_batch e) (sample_range_second e) \<Longrightarrow>
         \<exists>st'. batch_loop e stream st = Some (Inr st') \<and>
               gbwt_builder st' = gbwt_builder st \<and> binary_file st' = binary_file st \<and>
               all_phase_threads st' = all_phase_threads st \<and> thread_names st' = thread_names st"
proof (induction "sample_range_second e - batch_start st" arbitrary: st rule: less_induct)
  case less
  show ?case
  proof (cases "batch_start st < sample_range_second e")
    case False
    then show ?thesis by (subst batch_loop.simps) simp
  next
    case True
    let ?st = "next_batch e st"
    have step: "batch_loop e stream st = batch_loop e stream ?st"
      using True by (subst batch_loop.simps) (simp add: process_batch_no_variants [OF pv])
    have smaller: "sample_range_second e - batch_start ?st < sample_range_second e - batch_start st"
      using True pos less.prems by (simp add: next_batch_def)
    have inv: "batch_limit ?st = min (batch_start ?st + samples_in_batch e) (sample_range_second e)"
      by (simp add: next_batch_def)
    from less.hyps [OF smaller inv] show ?thesis
      by (simp add: step) (simp add: next_batch_def)
  qed
qed

text \<open>
  Claim C9. When the scan of the contig hands no variant to \<open>handle_variant\<close>, a batch
  leaves the whole state as it was, and (for a positive batch size) the run over all the
  batches of the contig returns with the three sinks and the thread names unchanged: no
  fragment, and so no all-reference thread, is emitted.
\<close>

theorem no_variants_no_fragments:
  assumes "processed_variants e stream = []"
  shows "process_batch e stream st = Inr st \<and>
         (0 < samples_in_batch e \<longrightarrow>
            (\<exists>st'. index_path e stream st = Some (Inr st') \<and>
                   gbwt_builder st' = gbwt_builder st \<and> binary_file st' = binary_file st \<and>
                   all_phase_threads st' = all_phase_threads st \<and>
                   thread_names st' = thread_names st))"
proof (intro conjI impI)
  show "process_batch e stream st = Inr st"
    by (rule process_batch_no_variants [OF assms])
next
  assume pos: "0 < samples_in_batch e"
  have inv: "batch_limit (init_path e st) =
      min (batch_start (init_path e st) + samples_in_batch e) (sample_range_second e)"
    by (simp add: init_path_def)
  from batch_loop_no_variants [OF assms pos inv]
  show "\<exists>st'. index_path e stream st = Some (Inr st') \<and>
          gbwt_builder st' = gbwt_builder st \<and> binary_file st' = binary_file st \<and>
          all_phase_threads st' = all_phase_threads st \<and> thread_names st' = thread_names st"
    by (simp add: index_path_def init_path_def)
qed

theorem no_variants_no_fragments_witness:
  "process_batch ex_env [(ex_var ''0|1'')\<lparr>sequenceName := ''d''\<rparr>] (ex_state [] [] 0 0 0 True) =
     Inr (ex_state [] [] 0 0 0 True) \<and>
   (\<exists>st'. index_path ex_env [(ex_var ''0|1'')\<lparr>sequenceName := ''d''\<rparr>] no_threads = Some (Inr st') \<and>
          gbwt_builder st' = [] \<and> thread_names st' = [])"
proof -
  have h: "processed_variants ex_env [(ex_var ''0|1'')\<lparr>sequenceName := ''d''\<rparr>] = []"
    by (simp add: processed_variants_def ex_var_def ex_env_def)
  have p: "0 < samples_in_batch ex_env" by (simp add: ex_env_def)
  from no_variants_no_fragments [OF h, of "ex_state [] [] 0 0 0 True"]
    no_variants_no_fragments [OF h, of no_threads] p
  show ?thesis by (auto simp add: no_threads_def)
qed

subsection \<open>A called alternate allele\<close>

lemma last_ref_base_sum:
  "last_ref_base_of e ref_path first_ref_base =
     first_ref_base + sum_list (map (\<lambda>m. node_length e (fst m))
                                  (case ref_path of None \<Rightarrow> [] | Some ms \<Rightarrow> ms))"
proof -
  have "foldl (\<lambda>l m. l + node_length e (fst m)) a ms = a + sum_list (map (\<lambda>m. node_length e (fst m)) ms)"
    for a ms
    by (induction ms arbitrary: a) simp_all
  note f = this
  show ?thesis
    by (simp add: last_ref_base_of_def f split: option.splits)
qed

text \<open>
  Claim C5. For a phase with a called alternate allele whose \<open>first_ref_base\<close> has been
  found: when the cursor of the phase is at most \<open>first_ref_base\<close>, or overlaps are not
  discarded, the new state is the old one after \<open>append_reference_mappings_until\<close> up to
  \<open>first_ref_base\<close>, then \<open>append_node\<close> for every visit of the alternate path (none when
  the path is absent), with the cursor of the phase, and no other cursor, set to
  \<open>last_ref_base\<close>, which is \<open>first_ref_base\<close> plus the lengths of the nodes of the reference
  allele path. Otherwise the state is unchanged.
\<close>

theorem alt_allele_rule:
  assumes ok: "phase_ok p st"
    and p: "p = sample_number * 2 + phase_offset"
    and called: "alt_index ! phase_offset \<noteq> - 1" "alt_index ! phase_offset \<noteq> 0"
    and rp: "ref_path = alt_paths e (''_alt_'' @ var_name @ ''_0'')"
    and ap: "alt_path = alt_paths e (''_alt_'' @ var_name @ ''_'' @
                          string_of_int (alt_index ! phase_offset))"
    and frb: "first_ref_base_of e ref_path alt_path = Inr (Some first_ref_base)"
    and lrb: "last_ref_base = first_ref_base +
                sum_list (map (\<lambda>m. node_length e (fst m))
                            (case ref_path of None \<Rightarrow> [] | Some ms \<Rightarrow> ms))"
  shows "(nonvariant_starts st ! (p - first_phase st) \<le> first_ref_base \<or> \<not> discard_overlaps e \<longrightarrow>
            (\<exists>st'. handle_phase e v var_name sample_number alt_index phase_offset st = Inr st' \<and>
               st' = (foldl (\<lambda>s m. append_node e p (mapping_to_gbwt m) s)
                        (append_reference_mappings_until e p first_ref_base st)
                        (case alt_path of None \<Rightarrow> [] | Some ms \<Rightarrow> ms))
                     \<lparr>nonvariant_starts := (nonvariant_starts st)[p - first_phase st := last_ref_base]\<rparr> \<and>
               nonvariant_starts st' ! (p - first_phase st) = last_ref_base)) \<and>
         (\<not> (nonvariant_starts st ! (p - first_phase st) \<le> first_ref_base \<or> \<not> discard_overlaps e) \<longrightarrow>
            handle_phase e v var_name sample_number alt_index phase_offset st = Inr st)"
proof -
  have j: "p - first_phase st < length (nonvariant_starts st)"
    using ok by (simp add: phase_ok_def)
  show ?thesis
    unfolding handle_phase_def Let_def rp [symmetric] ap [symmetric] p [symmetric]
    using called j
    by (simp add: frb last_ref_base_sum lrb append_reference_mappings_until_cursor [OF ok] ok)
qed

theorem alt_allele_rule_witness:
  "map_sum id (\<lambda>s. (active_phase_threads s ! 1, nonvariant_starts s ! 1))
     (handle_phase ex_env (ex_var ''0|1'') ''v1'' 0 [0, 1] 1 (ex_state [] [] 0 0 2 True)) =
   Inr ([2, 8], 4) \<and>
   handle_phase (ex_env\<lparr>discard_overlaps := True\<rparr>) (ex_var ''0|1'') ''v1'' 0 [0, 1] 1
     (ex_state [] [2, 8] 0 4 2 True) = Inr (ex_state [] [2, 8] 0 4 2 True)"
proof -
  let ?st = "ex_state [] [] 0 0 2 True"
  let ?st4 = "ex_state [] [2, 8] 0 4 2 True"
  let ?env = "ex_env\<lparr>discard_overlaps := True\<rparr>"
  have ok: "phase_ok 1 ?st" by (simp add: phase_ok_def ex_state_def)
  have ok4: "phase_ok 1 ?st4" by (simp add: phase_ok_def ex_state_def)
  have p: "(1::nat) = 0 * 2 + 1" by simp
  have called: "[0, 1 :: int] ! 1 \<noteq> - 1" "[0, 1 :: int] ! 1 \<noteq> 0" by simp_all
  have rp: "Some [(2, False)] = alt_paths ex_env (''_alt_'' @ ''v1'' @ ''_0'')"
    by (simp add: ex_env_def)
  have ap: "Some [(4, False)] = alt_paths ex_env (''_alt_'' @ ''v1'' @ ''_'' @ string_of_int ([0, 1] ! 1))"
    by code_simp
  have frb: "first_ref_base_of ex_env (Some [(2, False)]) (Some [(4, False)]) = Inr (Some 3)"
    by code_simp
  have lrb: "(4::nat) = 3 + sum_list (map (\<lambda>m. node_length ex_env (fst m))
                            (case Some [(2::nat, False)] of None \<Rightarrow> [] | Some ms \<Rightarrow> ms))"
    by (simp add: ex_env_def)
  have rp': "Some [(2, False)] = alt_paths ?env (''_alt_'' @ ''v1'' @ ''_0'')"
    by (simp add: ex_env_def)
  have ap': "Some [(4, False)] = alt_paths ?env (''_alt_'' @ ''v1'' @ ''_'' @ string_of_int ([0, 1] ! 1))"
    by code_simp
  have frb': "first_ref_base_of ?env (Some [(2, False)]) (Some [(4, False)]) = Inr (Some 3)"
    by code_simp
  have lrb': "(4::nat) = 3 + sum_list (map (\<lambda>m. node_length ?env (fst m))
                            (case Some [(2::nat, False)] of None \<Rightarrow> [] | Some ms \<Rightarrow> ms))"
    by (simp add: ex_env_def)
  have cur: "nonvariant_starts ?st ! (1 - first_phase ?st) \<le> 3 \<or> \<not> discard_overlaps ex_env"
    by (simp add: ex_state_def)
  have over: "\<not> (nonvariant_starts ?st4 ! (1 - first_phase ?st4) \<le> 3 \<or> \<not> discard_overlaps ?env)"
    by (simp add: ex_state_def)
  have buf: "active_phase_threads
      ((foldl (\<lambda>s m. append_node ex_env 1 (mapping_to_gbwt m) s)
          (append_reference_mappings_until ex_env 1 3 ?st)
          (case Some [(4, False)] of None \<Rightarrow> [] | Some ms \<Rightarrow> ms))
        \<lparr>nonvariant_starts := (nonvariant_starts ?st)[1 - first_phase ?st := 4]\<rparr>) ! 1 = [2, 8]"
    by code_simp
  have fp: "first_phase ?st = 0" by (simp add: ex_state_def)
  from alt_allele_rule [OF ok p called rp ap frb lrb, of "ex_var ''0|1''"] cur
  obtain st' where r: "handle_phase ex_env (ex_var ''0|1'') ''v1'' 0 [0, 1] 1 ?st = Inr st'"
    and eq: "st' = (foldl (\<lambda>s m. append_node ex_env 1 (mapping_to_gbwt m) s)
          (append_reference_mappings_until ex_env 1 3 ?st)
          (case Some [(4, False)] of None \<Rightarrow> [] | Some ms \<Rightarrow> ms))
        \<lparr>nonvariant_starts := (nonvariant_starts ?st)[1 - first_phase ?st := 4]\<rparr>"
    and c: "nonvariant_starts st' ! (1 - first_phase ?st) = 4"
    by blast
  have b: "active_phase_threads st' ! 1 = [2, 8]"
    unfolding eq by (rule buf)
  have taken: "map_sum id (\<lambda>s. (active_phase_threads s ! 1, nonvariant_starts s ! 1))
     (handle_phase ex_env (ex_var ''0|1'') ''v1'' 0 [0, 1] 1 ?st) = Inr ([2, 8], 4)"
    unfolding r using b c by (simp add: fp)
  from alt_allele_rule [OF ok4 p called rp' ap' frb' lrb', of "ex_var ''0|1''"] over
  have skipped: "handle_phase ?env (ex_var ''0|1'') ''v1'' 0 [0, 1] 1 ?st4 = Inr ?st4"
    by blast
  from taken skipped show ?thesis by (rule conjI)
qed

subsection \<open>The first reference base of a site\<close>

lemma foldl_max_map_filter:
  "foldl (\<lambda>acc x. case g x of None \<Rightarrow> acc | Some v \<Rightarrow> max acc v) (a::nat) xs =
     Max (insert a {v. \<exists>x \<in> set xs. g x = Some v})"
proof (induction xs arbitrary: a)
  case Nil
  show ?case by simp
next
  case (Cons x xs)
  let ?S = "{v. \<exists>y \<in> set xs. g y = Some v}"
  have fin: "finite ?S"
  proof -
    have "?S \<subseteq> (\<lambda>y. the (g y)) ` set xs" by force
    then show ?thesis by (rule finite_subset) simp
  qed
  show ?case
  proof (cases "g x")
    case None
    then have "{v. \<exists>y \<in> set (x # xs). g y = Some v} = ?S" by auto
    with None Cons show ?thesis by simp
  next
    case (Some v)
    then have s: "{w. \<exists>y \<in> set (x # xs). g y = Some w} = insert v ?S" by auto
    have "Max (insert (max a v) ?S) = Max (insert a (insert v ?S))"
    proof (cases "?S = {}")
      case True
      then show ?thesis by (simp add: max.commute)
    next
      case False
      with fin show ?thesis by (simp add: max.assoc)
    qed
    with Some Cons s show ?thesis by simp
  qed
qed

lemma candidates_set:
  "{v. \<exists>x \<in> set xs. (if oth x = a then None
                          else case m (oth x) of
                                 None \<Rightarrow> None
                               | Some entry \<Rightarrow> Some (f entry (oth x))) = Some v} =
   {f entry other | edge other entry.
      edge \<in> set xs \<and> other = oth edge \<and> other \<noteq> a \<and> m other = Some entry}"
  by (auto split: if_splits option.splits)

text \<open>
  Claim C6. With a non-empty reference allele path, \<open>first_ref_base\<close> is the reference
  start that \<open>by_id\<close> gives for the first node of that path (and \<open>std::map::at\<close> throws
  when that node is not on the reference path). Without it, and with a non-empty alternate
  path whose first visit is \<open>a\<close>, it is the maximum of 0 and of \<open>start + length\<close> over the
  edges on the start of \<open>a\<close> (on its end when \<open>a\<close> is reversed) whose other endpoint is
  another node that lies on the reference path. With neither path, \<open>handle_phase\<close> only
  records the warning: the state is otherwise unchanged.
\<close>

theorem first_ref_base_rule:
  "(ref_path = Some (m # ms) \<longrightarrow>
      (by_id e (fst m) = Some entry \<longrightarrow>
         first_ref_base_of e ref_path alt_path = Inr (Some (fst entry))) \<and>
      (by_id e (fst m) = None \<longrightarrow>
         first_ref_base_of e ref_path alt_path = Inl Out_of_range)) \<and>
   ((ref_path = None \<or> ref_path = Some []) \<and> alt_path = Some (a # as) \<longrightarrow>
      first_ref_base_of e ref_path alt_path =
        Inr (Some (Max (insert 0
          {fst entry + node_length e other | edge other entry.
             edge \<in> set (if snd a then edges_on_end e (fst a) else edges_on_start e (fst a)) \<and>
             other = (if fst edge = fst a then snd edge else fst edge) \<and>
             other \<noteq> fst a \<and> by_id e other = Some entry})))) \<and>
   ((ref_path = None \<or> ref_path = Some []) \<and> (alt_path = None \<or> alt_path = Some []) \<longrightarrow>
      first_ref_base_of e ref_path alt_path = Inr None \<and>
      (alt_index ! phase_offset \<noteq> - 1 \<and> alt_index ! phase_offset \<noteq> 0 \<and>
       alt_paths e (''_alt_'' @ var_name @ ''_0'') = ref_path \<and>
       alt_paths e (''_alt_'' @ var_name @ ''_'' @ string_of_int (alt_index ! phase_offset)) = alt_path \<longrightarrow>
         handle_phase e v var_name sample_number alt_index phase_offset st =
           Inr (st\<lparr>cerr := cerr st @
                  [Alt_and_ref_missing var_name (sequenceName v) (position v)]\<rparr>)))"
proof (intro conjI impI)
  assume "ref_path = Some (m # ms)" "by_id e (fst m) = Some entry"
  then show "first_ref_base_of e ref_path alt_path = Inr (Some (fst entry))"
    by (simp add: first_ref_base_of_def)
next
  assume "ref_path = Some (m # ms)" "by_id e (fst m) = None"
  then show "first_ref_base_of e ref_path alt_path = Inl Out_of_range"
    by (simp add: first_ref_base_of_def)
next
  assume h: "(ref_path = None \<or> ref_path = Some []) \<and> alt_path = Some (a # as)"
  let ?edges = "if snd a then edges_on_end e (fst a) else edges_on_start e (fst a)"
  let ?other = "\<lambda>edge. if fst edge = fst a then snd edge else fst edge"
  let ?g = "\<lambda>edge. if ?other edge = fst a then None
               else case by_id e (?other edge) of
                      None \<Rightarrow> None
                    | Some entry \<Rightarrow> Some (fst entry + node_length e (?other edge))"
  let ?F = "\<lambda>first_ref_base edge.
          if ?other edge = fst a then first_ref_base
          else case by_id e (?other edge) of
                 None \<Rightarrow> first_ref_base
               | Some entry \<Rightarrow> max first_ref_base (fst entry + node_length e (?other edge))"
  have step: "?F = (\<lambda>acc x. case ?g x of None \<Rightarrow> acc | Some v \<Rightarrow> max acc v)"
    by (intro ext) (simp split: option.splits)
  have set_eq: "{v. \<exists>x \<in> set ?edges. ?g x = Some v} =
      {fst entry + node_length e other | edge other entry.
         edge \<in> set ?edges \<and> other = ?other edge \<and> other \<noteq> fst a \<and> by_id e other = Some entry}"
    by (rule candidates_set [where oth = ?other and a = "fst a" and m = "by_id e"
          and f = "\<lambda>entry other. fst entry + node_length e other"])
  have fr: "first_ref_base_of e ref_path alt_path = Inr (Some (foldl ?F 0 ?edges))"
    using h by (auto simp add: first_ref_base_of_def Let_def)
  show "first_ref_base_of e ref_path alt_path =
        Inr (Some (Max (insert 0
          {fst entry + node_length e other | edge other entry.
             edge \<in> set ?edges \<and> other = ?other edge \<and>
             other \<noteq> fst a \<and> by_id e other = Some entry})))"
    unfolding fr step foldl_max_map_filter set_eq ..
next
  assume h: "(ref_path = None \<or> ref_path = Some []) \<and> (alt_path = None \<or> alt_path = Some [])"
  then show n: "first_ref_base_of e ref_path alt_path = Inr None"
    by (auto simp add: first_ref_base_of_def)
  assume c: "alt_index ! phase_offset \<noteq> - 1 \<and> alt_index ! phase_offset \<noteq> 0 \<and>
       alt_paths e (''_alt_'' @ var_name @ ''_0'') = ref_path \<and>
       alt_paths e (''_alt_'' @ var_name @ ''_'' @ string_of_int (alt_index ! phase_offset)) = alt_path"
  show "handle_phase e v var_name sample_number alt_index phase_offset st =
           Inr (st\<lparr>cerr := cerr st @
                  [Alt_and_ref_missing var_name (sequenceName v) (position v)]\<rparr>)"
    unfolding handle_phase_def Let_def
    using c n by simp
qed

theorem first_ref_base_rule_witness:
  "first_ref_base_of ex_env (Some [(2, False)]) (Some [(4, False)]) = Inr (Some 3) \<and>
   first_ref_base_of ex_env (Some [(9, False)]) (Some [(4, False)]) = Inl Out_of_range \<and>
   first_ref_base_of ex_env None (Some [(4, False)]) = Inr (Some 3) \<and>
   handle_phase (ex_env\<lparr>alt_paths := Map.empty\<rparr>) (ex_var ''0|1'') ''v1'' 0 [0, 1] 1
       (ex_state [] [] 0 0 2 True) =
     Inr ((ex_state [] [] 0 0 2 True)\<lparr>cerr := [Alt_and_ref_missing ''v1'' ''c'' 4]\<rparr>)"
proof -
  have r: "by_id ex_env (fst (2::nat, False)) = Some (3, False)"
    by (simp add: ex_env_def)
  have c: "{fst entry + node_length ex_env other | edge other entry.
             edge \<in> set (if snd (4::nat, False) then edges_on_end ex_env (fst (4::nat, False))
                          else edges_on_start ex_env (fst (4::nat, False))) \<and>
             other = (if fst edge = fst (4::nat, False) then snd edge else fst edge) \<and>
             other \<noteq> fst (4::nat, False) \<and> by_id ex_env other = Some entry} = {3}"
    by (auto simp add: ex_env_def ex_edges_def)
  have n: "[0, 1 :: int] ! 1 \<noteq> - 1 \<and> [0, 1 :: int] ! 1 \<noteq> 0 \<and>
       alt_paths (ex_env\<lparr>alt_paths := Map.empty\<rparr>) (''_alt_'' @ ''v1'' @ ''_0'') = None \<and>
       alt_paths (ex_env\<lparr>alt_paths := Map.empty\<rparr>)
         (''_alt_'' @ ''v1'' @ ''_'' @ string_of_int ([0, 1] ! 1)) = None"
    by simp
  have s: "cerr (ex_state [] [] 0 0 2 True) = []" "sequenceName (ex_var ''0|1'') = ''c''"
    "position (ex_var ''0|1'') = 4"
    by (simp_all add: ex_state_def ex_var_def)
  from first_ref_base_rule [of "Some [(2, False)]" "(2, False)" "[]" ex_env "(3, False)"
      "Some [(4, False)]"] r
  have w1: "first_ref_base_of ex_env (Some [(2, False)]) (Some [(4, False)]) = Inr (Some 3)"
    by simp
  have r9: "by_id ex_env (fst (9::nat, False)) = None"
    by (simp add: ex_env_def)
  from first_ref_base_rule [of "Some [(9, False)]" "(9, False)" "[]" ex_env _
      "Some [(4, False)]"] r9
  have w0: "first_ref_base_of ex_env (Some [(9, False)]) (Some [(4, False)]) = Inl Out_of_range"
    by simp
  from first_ref_base_rule [of None _ _ ex_env _ "Some [(4, False)]" "(4, False)" "[]"] c
  have w2: "first_ref_base_of ex_env None (Some [(4, False)]) = Inr (Some 3)"
    by simp
  from first_ref_base_rule [of None _ _ "ex_env\<lparr>alt_paths := Map.empty\<rparr>" _ None _ _
      "[0, 1]" 1 "''v1''" "ex_var ''0|1''" 0 "ex_state [] [] 0 0 2 True"] n s
  have w3: "handle_phase (ex_env\<lparr>alt_paths := Map.empty\<rparr>) (ex_var ''0|1'') ''v1'' 0 [0, 1] 1
       (ex_state [] [] 0 0 2 True) =
     Inr ((ex_state [] [] 0 0 2 True)\<lparr>cerr := [Alt_and_ref_missing ''v1'' ''c'' 4]\<rparr>)"
    by simp
  from w1 w0 w2 w3 show ?thesis by simp
qed

subsection \<open>Breaking the paths of a sample\<close>

text \<open>
  Claim C4. \<open>handle_variant\<close> reaches the sample in the state \<open>st\<close>. When the genotype of
  the sample changes the ploidy of its region, or leaves the sample without an active
  phase after it had some, \<open>handle_sample\<close> first runs \<open>break_paths\<close> and goes on from the
  state \<open>closed\<close> that it leaves. There each of the \<open>n\<close> phases that were active has been
  extended with the reference visits from its cursor up to the position of the variant and
  closed: its buffer is empty, and the sinks have received, phase after phase, the
  fragments of \<open>closing_fragments\<close> for the buffer and the cursor that the phase had before.
  The cursors are rolled back: without a change of ploidy the whole vector of cursors is
  as before, and with one the two cursors of the sample are both the maximum \<open>mx\<close> of
  their previous values. A sample that became inactive is left in that state.
\<close>

theorem ploidy_change_closes_phases:
  assumes reach: "fold_err (handle_sample e v (make_variant_id e v))
                    [batch_start st0 ..< sample_number] st0 = Inr st"
    and inb: "batch_start st0 \<le> sample_number" "sample_number < batch_limit st0"
    and parse: "parse_genotype (diploid_region st ! s)
                  (getGenotype v (sample_names e ! sample_number)) =
                Inr (alt_index, new_active_phases, is_diploid)"
    and s: "s = sample_number - batch_start st"
    and sr: "s < length (active_phases st)"
    and trigger: "is_diploid \<noteq> diploid_region st ! s \<or>
                  (new_active_phases = 0 \<and> active_phases st ! s > 0)"
    and fp: "first_phase st \<le> 2 * sample_number"
    and ok0: "phase_ok (sample_number * 2) st"
    and ok1: "phase_ok (sample_number * 2 + 1) st"
    and n: "n = nat (active_phases st ! s)"
    and n2: "n \<le> 2"
    and pid: "pid = 2 * sample_number - first_phase st"
    and mx: "mx = max (nonvariant_starts st ! pid) (nonvariant_starts st ! (pid + 1))"
    and closed: "closed = break_paths e v sample_number is_diploid st"
  shows "handle_variant e v st0 =
           (case handle_sample e v (make_variant_id e v) sample_number st of
              Inl thrown \<Rightarrow> Inl thrown
            | Inr st' \<Rightarrow>
                fold_err (handle_sample e v (make_variant_id e v))
                  [Suc sample_number ..< batch_limit st0] st') \<and>
         handle_sample e v (make_variant_id e v) sample_number st =
           fold_err (handle_phase e v (make_variant_id e v) sample_number alt_index)
             [0 ..< nat new_active_phases]
             (closed\<lparr>active_phases := (active_phases st)[s := new_active_phases],
                     diploid_region := (diploid_region st)[s := is_diploid]\<rparr>) \<and>
         (new_active_phases = 0 \<longrightarrow>
            handle_sample e v (make_variant_id e v) sample_number st =
              Inr (closed\<lparr>active_phases := (active_phases st)[s := 0],
                          diploid_region := (diploid_region st)[s := is_diploid]\<rparr>)) \<and>
         (\<forall>po<n. active_phase_threads closed ! (pid + po) = []) \<and>
         sinks closed = hand_over e (sinks st)
           (concat (map (\<lambda>po. closing_fragments e (active_phase_threads st ! (pid + po))
                                (reference_visits e st (pid + po) (to_size_t (position v))))
                     [0 ..< n])) \<and>
         (is_diploid = diploid_region st ! s \<longrightarrow>
            nonvariant_starts closed = nonvariant_starts st) \<and>
         (is_diploid \<noteq> diploid_region st ! s \<longrightarrow>
            nonvariant_starts closed = (nonvariant_starts st)[pid := mx, pid + 1 := mx])"
proof -
  have n2': "nat (active_phases st ! (sample_number - batch_start st)) \<le> 2"
    using n n2 s by simp
  note fr = break_paths_frame [OF fp ok0 ok1 n2', of e v is_diploid]
  have run: "handle_sample e v (make_variant_id e v) sample_number st =
           fold_err (handle_phase e v (make_variant_id e v) sample_number alt_index)
             [0 ..< nat new_active_phases]
             (closed\<lparr>active_phases := (active_phases st)[s := new_active_phases],
                     diploid_region := (diploid_region st)[s := is_diploid]\<rparr>)"
    unfolding handle_sample_def Let_def s [symmetric] parse
    using trigger sr by (simp add: closed s fr)
  have idle: "handle_sample e v (make_variant_id e v) sample_number st =
              Inr (closed\<lparr>active_phases := (active_phases st)[s := 0],
                          diploid_region := (diploid_region st)[s := is_diploid]\<rparr>)"
    if "new_active_phases = 0"
    unfolding run using that by simp
  note b = break_paths_closes [OF fp ok0 ok1 n [unfolded s] n2 pid mx closed, folded s]
  from handle_variant_at_sample [OF reach inb] run idle b show ?thesis
    by simp
qed

theorem ploidy_change_closes_phases_witness:
  "handle_variant ex_env (ex_var_at 3 ''1|0'') (init_path ex_env no_threads) =
     Inr (ex_state [2, 8] [] 4 0 2 True) \<and>
   handle_variant ex_env (ex_var_at 5 ''0'') (ex_state [2, 8] [] 4 0 2 True) =
     Inr ((ex_state [] [] 4 4 1 False)
            \<lparr>saved_phase_paths := [1, 1],
             gbwt_builder := [([2, 8, 6], True), ([2, 4, 6], True)],
             thread_names := [''_thread_s0_c_0_0'', ''_thread_s0_c_1_1'']\<rparr>) \<and>
   active_phase_threads (break_paths ex_env (ex_var_at 5 ''0'') 0 False
                           (ex_state [2, 8] [] 4 0 2 True)) ! 0 = [] \<and>
   active_phase_threads (break_paths ex_env (ex_var_at 5 ''0'') 0 False
                           (ex_state [2, 8] [] 4 0 2 True)) ! 1 = [] \<and>
   sinks (break_paths ex_env (ex_var_at 5 ''0'') 0 False (ex_state [2, 8] [] 4 0 2 True)) =
     ([([2, 8, 6], True), ([2, 4, 6], True)], [], []) \<and>
   nonvariant_starts (break_paths ex_env (ex_var_at 5 ''0'') 0 False
                        (ex_state [2, 8] [] 4 0 2 True)) = [4, 4] \<and>
   handle_variant ex_env (ex_var_at 5 []) (ex_state [2, 8] [] 4 0 2 True) =
     Inr ((ex_state [] [] 4 0 0 True)
            \<lparr>saved_phase_paths := [1, 1],
             gbwt_builder := [([2, 8, 6], True), ([2, 4, 6], True)],
             thread_names := [''_thread_s0_c_0_0'', ''_thread_s0_c_1_1'']\<rparr>) \<and>
   nonvariant_starts (break_paths ex_env (ex_var_at 5 []) 0 True
                        (ex_state [2, 8] [] 4 0 2 True)) = [4, 0]"
proof -
  let ?st = "ex_state [2, 8] [] 4 0 2 True"
  let ?v = "ex_var_at 5 ''0''"
  let ?w = "ex_var_at 5 []"
  let ?c = "break_paths ex_env ?v 0 False ?st"
  let ?d = "break_paths ex_env ?w 0 True ?st"
  have reachable: "handle_variant ex_env (ex_var_at 3 ''1|0'') (init_path ex_env no_threads) = Inr ?st"
    by code_simp
  have reach: "fold_err (handle_sample ex_env v' (make_variant_id ex_env v'))
                 [batch_start ?st ..< 0] ?st = Inr ?st" for v'
    by simp
  have inb: "batch_start ?st \<le> 0" "0 < batch_limit ?st" by (simp_all add: ex_state_def)
  have parse: "parse_genotype (diploid_region ?st ! 0) (getGenotype ?v (sample_names ex_env ! 0)) =
               Inr ([0, - 1], 1, False)"
    by code_simp
  have parse': "parse_genotype (diploid_region ?st ! 0) (getGenotype ?w (sample_names ex_env ! 0)) =
               Inr ([- 1, - 1], 0, True)"
    by code_simp
  have s: "(0::nat) = 0 - batch_start ?st" by simp
  have sr: "0 < length (active_phases ?st)" by (simp add: ex_state_def)
  have trigger: "False \<noteq> diploid_region ?st ! 0 \<or> ((1::int) = 0 \<and> active_phases ?st ! 0 > 0)"
    by (simp add: ex_state_def)
  have trigger': "True \<noteq> diploid_region ?st ! 0 \<or> ((0::int) = 0 \<and> active_phases ?st ! 0 > 0)"
    by (simp add: ex_state_def)
  have fp: "first_phase ?st \<le> 2 * 0" by (simp add: ex_state_def)
  have ok0: "phase_ok (0 * 2) ?st" by (simp add: phase_ok_def ex_state_def)
  have ok1: "phase_ok (0 * 2 + 1) ?st" by (simp add: phase_ok_def ex_state_def)
  have n: "(2::nat) = nat (active_phases ?st ! 0)" by (simp add: ex_state_def)
  have pid: "(0::nat) = 2 * 0 - first_phase ?st" by (simp add: ex_state_def)
  have mx: "(4::nat) = max (nonvariant_starts ?st ! 0) (nonvariant_starts ?st ! (0 + 1))"
    by (simp add: ex_state_def)
  note t = ploidy_change_closes_phases
    [OF reach inb parse s sr trigger fp ok0 ok1 n order_refl pid mx refl]
  note u = ploidy_change_closes_phases
    [OF reach inb parse' s sr trigger' fp ok0 ok1 n order_refl pid mx refl]
  have id: "make_variant_id ex_env v' = ''v1''" for v' by (simp add: ex_env_def)
  have lim: "[Suc 0 ..< batch_limit ?st] = []" by (simp add: ex_state_def)
  have ev: "hand_over ex_env (sinks ?st)
           (concat (map (\<lambda>po. closing_fragments ex_env (active_phase_threads ?st ! (0 + po))
                                (reference_visits ex_env ?st (0 + po) (to_size_t (position ?v))))
                     [0 ..< 2])) = ([([2, 8, 6], True), ([2, 4, 6], True)], [], [])"
    by code_simp
  have run: "fold_err (handle_phase ex_env ?v ''v1'' 0 [0, - 1]) [0 ..< nat 1]
               (?c\<lparr>active_phases := (active_phases ?st)[0 := 1],
                    diploid_region := (diploid_region ?st)[0 := False]\<rparr>) =
     Inr ((ex_state [] [] 4 4 1 False)
            \<lparr>saved_phase_paths := [1, 1],
             gbwt_builder := [([2, 8, 6], True), ([2, 4, 6], True)],
             thread_names := [''_thread_s0_c_0_0'', ''_thread_s0_c_1_1'']\<rparr>)"
    by code_simp
  have left: "?d\<lparr>active_phases := (active_phases ?st)[0 := 0],
                 diploid_region := (diploid_region ?st)[0 := True]\<rparr> =
     (ex_state [] [] 4 0 0 True)
            \<lparr>saved_phase_paths := [1, 1],
             gbwt_builder := [([2, 8, 6], True), ([2, 4, 6], True)],
             thread_names := [''_thread_s0_c_0_0'', ''_thread_s0_c_1_1'']\<rparr>"
    by code_simp
  have d: "False \<noteq> diploid_region ?st ! 0" by (simp add: ex_state_def)
  have k: "True = diploid_region ?st ! 0" by (simp add: ex_state_def)
  have c: "(nonvariant_starts ?st)[0 := 4, 0 + 1 := 4] = [4, 4]" by (simp add: ex_state_def)
  have c': "nonvariant_starts ?st = [4, 0]" by (simp add: ex_state_def)
  from t have hv: "handle_variant ex_env ?v ?st =
      (case handle_sample ex_env ?v (make_variant_id ex_env ?v) 0 ?st of
         Inl thrown \<Rightarrow> Inl thrown
       | Inr st' \<Rightarrow> fold_err (handle_sample ex_env ?v (make_variant_id ex_env ?v))
                      [Suc 0 ..< batch_limit ?st] st')"
    by (rule conjunct1)
  from t have hs: "handle_sample ex_env ?v (make_variant_id ex_env ?v) 0 ?st =
      fold_err (handle_phase ex_env ?v (make_variant_id ex_env ?v) 0 [0, - 1]) [0 ..< nat 1]
        (?c\<lparr>active_phases := (active_phases ?st)[0 := 1],
             diploid_region := (diploid_region ?st)[0 := False]\<rparr>)"
    by (rule conjunct1 [OF conjunct2])
  have w1: "handle_variant ex_env ?v ?st =
     Inr ((ex_state [] [] 4 4 1 False)
            \<lparr>saved_phase_paths := [1, 1],
             gbwt_builder := [([2, 8, 6], True), ([2, 4, 6], True)],
             thread_names := [''_thread_s0_c_0_0'', ''_thread_s0_c_1_1'']\<rparr>)"
    using hv [unfolded id hs [unfolded id run] lim] by simp
  from t have b: "\<forall>po<2. active_phase_threads ?c ! (0 + po) = []"
    by (rule conjunct1 [OF conjunct2 [OF conjunct2 [OF conjunct2]]])
  have b0: "active_phase_threads ?c ! 0 = []" using b [rule_format, of 0] by simp
  have b1: "active_phase_threads ?c ! 1 = []" using b [rule_format, of 1] by simp
  from t have sk: "sinks ?c = ([([2, 8, 6], True), ([2, 4, 6], True)], [], [])"
    unfolding ev by (rule conjunct1 [OF conjunct2 [OF conjunct2 [OF conjunct2 [OF conjunct2]]]])
  from t d have "nonvariant_starts ?c = (nonvariant_starts ?st)[0 := 4, 0 + 1 := 4]"
    by blast
  then have cu: "nonvariant_starts ?c = [4, 4]" unfolding c .
  from u have hv': "handle_variant ex_env ?w ?st =
      (case handle_sample ex_env ?w (make_variant_id ex_env ?w) 0 ?st of
         Inl thrown \<Rightarrow> Inl thrown
       | Inr st' \<Rightarrow> fold_err (handle_sample ex_env ?w (make_variant_id ex_env ?w))
                      [Suc 0 ..< batch_limit ?st] st')"
    by (rule conjunct1)
  from u have "handle_sample ex_env ?w (make_variant_id ex_env ?w) 0 ?st =
      Inr (?d\<lparr>active_phases := (active_phases ?st)[0 := 0],
               diploid_region := (diploid_region ?st)[0 := True]\<rparr>)"
    by blast
  then have hs': "handle_sample ex_env ?w (make_variant_id ex_env ?w) 0 ?st =
     Inr ((ex_state [] [] 4 0 0 True)
            \<lparr>saved_phase_paths := [1, 1],
             gbwt_builder := [([2, 8, 6], True), ([2, 4, 6], True)],
             thread_names := [''_thread_s0_c_0_0'', ''_thread_s0_c_1_1'']\<rparr>)"
    unfolding left .
  have w2: "handle_variant ex_env ?w ?st =
     Inr ((ex_state [] [] 4 0 0 True)
            \<lparr>saved_phase_paths := [1, 1],
             gbwt_builder := [([2, 8, 6], True), ([2, 4, 6], True)],
             thread_names := [''_thread_s0_c_0_0'', ''_thread_s0_c_1_1'']\<rparr>)"
    using hv' [unfolded id hs' [unfolded id] lim] by simp
  from u k have "nonvariant_starts ?d = nonvariant_starts ?st" by blast
  then have cv: "nonvariant_starts ?d = [4, 0]" unfolding c' .
  from reachable w1 b0 b1 sk cu w2 cv show ?thesis by simp
qed

subsection \<open>Missing calls\<close>

text \<open>
  Claim C8, as far as the code goes. A sample whose genotype keeps the ploidy of its region
  runs no forced close. Then an active phase with a missing allele keeps its buffer, its
  cursor and its fragment counter through the variant, whatever the other phase does; and
  when every active phase of the sample is missing or reference, nothing reaches the sinks
  and no name is recorded. After \<open>finish_phase\<close> the buffer of the phase is empty, so the
  thread that follows a close never resumes the one handed over.
\<close>

theorem missing_call_keeps_phase:
  assumes parse: "parse_genotype (diploid_region st ! s)
                    (getGenotype v (sample_names e ! sample_number)) =
                  Inr (alt_index, new_active_phases, is_diploid)"
    and s: "s = sample_number - batch_start st"
    and sr: "s < length (active_phases st)"
    and same: "is_diploid = diploid_region st ! s"
    and fp: "first_phase st \<le> 2 * sample_number"
    and ok0: "phase_ok (sample_number * 2) st"
    and ok1: "phase_ok (sample_number * 2 + 1) st"
    and res: "handle_sample e v var_name sample_number st = Inr st'"
    and active: "phase_offset < nat new_active_phases"
    and missing: "alt_index ! phase_offset = - 1"
    and i: "i = sample_number * 2 + phase_offset - first_phase st"
  shows "active_phase_threads st' ! i = active_phase_threads st ! i \<and>
         nonvariant_starts st' ! i = nonvariant_starts st ! i \<and>
         saved_phase_paths st' ! i = saved_phase_paths st ! i \<and>
         ((\<forall>k<nat new_active_phases. alt_index ! k = - 1 \<or> alt_index ! k = 0) \<longrightarrow>
            sinks st' = sinks st \<and> thread_names st' = thread_names st) \<and>
         (\<forall>p name st0. p - first_phase st0 < length (active_phase_threads st0) \<longrightarrow>
            active_phase_threads (finish_phase e p name st0) ! (p - first_phase st0) = [])"
proof -
  let ?st2 = "st\<lparr>active_phases := (active_phases st)[s := new_active_phases],
                  diploid_region := (diploid_region st)[s := is_diploid]\<rparr>"
  let ?h = "handle_phase e v var_name sample_number alt_index"
  have pos: "0 < new_active_phases" using active by simp
  have run: "fold_err ?h [0 ..< nat new_active_phases] ?st2 = Inr st'"
    using res pos sr unfolding handle_sample_def Let_def s [symmetric] parse
    by (simp add: same)
  have ok0': "phase_ok (sample_number * 2 + 0) ?st2" using ok0 by (simp add: phase_ok_def)
  have ok1': "phase_ok (sample_number * 2 + 1) ?st2" using ok1 by (simp add: phase_ok_def)
  have i0: "sample_number * 2 + 0 - first_phase st \<noteq> sample_number * 2 + 1 - first_phase st"
    using fp by simp
  have up: "[0 ..< 2] = [0, 1::nat]"
    by (simp add: upt_rec [of 0] upt_rec [of 1] upt_rec [of "Suc 0"])
  from parse_genotype_shape [OF parse] pos
  consider "new_active_phases = 1" | "new_active_phases = 2" by auto
  then have keep: "active_phase_threads st' ! i = active_phase_threads ?st2 ! i \<and>
         nonvariant_starts st' ! i = nonvariant_starts ?st2 ! i \<and>
         saved_phase_paths st' ! i = saved_phase_paths ?st2 ! i"
  proof cases
    case 1
    then have "phase_offset = 0" using active by simp
    then have "st' = ?st2" using run 1 missing by (simp add: handle_phase_missing)
    then show ?thesis by simp
  next
    case 2
    then have po: "phase_offset = 0 \<or> phase_offset = 1" using active by auto
    from run obtain sa where a: "?h 0 ?st2 = Inr sa" and b: "?h 1 sa = Inr st'"
      unfolding 2 by (auto simp add: up split: sum.splits)
    note sea = handle_phase_same_except [OF ok0' a]
    have ok1a: "phase_ok (sample_number * 2 + 1) sa"
      by (rule same_except_phase_ok [OF sea ok1'])
    note seb = handle_phase_same_except [OF ok1a b]
    have fa: "first_phase sa = first_phase st"
      using same_except_first_phase [OF sea] by simp
    from po show ?thesis
    proof
      assume p0: "phase_offset = 0"
      then have "sa = ?st2" using a missing by (simp add: handle_phase_missing)
      with same_except_other [OF seb, of i] i0 show ?thesis
        by (simp add: i p0 fa)
    next
      assume p1: "phase_offset = 1"
      then have "st' = sa" using b missing by (simp add: handle_phase_missing)
      with same_except_other [OF sea, of i] i0 show ?thesis
        by (simp add: i p1)
    qed
  qed
  have quiet: "sinks st' = sinks st \<and> thread_names st' = thread_names st"
    if all: "\<forall>k<nat new_active_phases. alt_index ! k = - 1 \<or> alt_index ! k = 0"
  proof -
    have same_state: "?h k x = Inr x" if "k < nat new_active_phases" for k x
      using all that by (auto simp add: handle_phase_missing handle_phase_reference)
    have idle: "fold_err ?h ks x = Inr x" if "set ks \<subseteq> {..<nat new_active_phases}" for ks x
      using that by (induction ks arbitrary: x) (simp_all add: same_state)
    have "set [0 ..< nat new_active_phases] \<subseteq> {..<nat new_active_phases}" by auto
    from idle [OF this, of ?st2] run have "st' = ?st2"
      by simp
    then show ?thesis by (simp add: sinks_def)
  qed
  show ?thesis
    using keep quiet finish_phase_buffer_empty by simp
qed

theorem missing_call_keeps_phase_witness:
  "handle_sample ex_env (ex_var ''.|1'') ''v1'' 0 (ex_state [2, 8] [] 4 0 2 True) =
     Inr (ex_state [2, 8] [2, 8] 4 4 2 True) \<and>
   active_phase_threads (ex_state [2, 8] [2, 8] 4 4 2 True) ! 0 =
     active_phase_threads (ex_state [2, 8] [] 4 0 2 True) ! 0 \<and>
   nonvariant_starts (ex_state [2, 8] [2, 8] 4 4 2 True) ! 0 =
     nonvariant_starts (ex_state [2, 8] [] 4 0 2 True) ! 0 \<and>
   saved_phase_paths (ex_state [2, 8] [2, 8] 4 4 2 True) ! 0 =
     saved_phase_paths (ex_state [2, 8] [] 4 0 2 True) ! 0 \<and>
   handle_sample ex_env (ex_var ''.|0'') ''v1'' 0 (ex_state [2, 8] [] 4 0 2 True) =
     Inr (ex_state [2, 8] [] 4 0 2 True) \<and>
   active_phase_threads (finish_phase ex_env 0 ''n'' (ex_state [2, 8] [] 4 0 2 True)) ! 0 = []"
proof -
  let ?st = "ex_state [2, 8] [] 4 0 2 True"
  let ?st' = "ex_state [2, 8] [2, 8] 4 4 2 True"
  have parse: "parse_genotype (diploid_region ?st ! 0)
                 (getGenotype (ex_var ''.|1'') (sample_names ex_env ! 0)) =
               Inr ([- 1, 1], 2, True)"
    by code_simp
  have parse0: "parse_genotype (diploid_region ?st ! 0)
                 (getGenotype (ex_var ''.|0'') (sample_names ex_env ! 0)) =
               Inr ([- 1, 0], 2, True)"
    by code_simp
  have s: "(0::nat) = 0 - batch_start ?st" by simp
  have sr: "0 < length (active_phases ?st)" by (simp add: ex_state_def)
  have same: "True = diploid_region ?st ! 0" by (simp add: ex_state_def)
  have fp: "first_phase ?st \<le> 2 * 0" by (simp add: ex_state_def)
  have ok0: "phase_ok (0 * 2) ?st" by (simp add: phase_ok_def ex_state_def)
  have ok1: "phase_ok (0 * 2 + 1) ?st" by (simp add: phase_ok_def ex_state_def)
  have res: "handle_sample ex_env (ex_var ''.|1'') ''v1'' 0 ?st = Inr ?st'"
    by code_simp
  have res0: "handle_sample ex_env (ex_var ''.|0'') ''v1'' 0 ?st = Inr ?st"
    by code_simp
  have active: "0 < nat 2" by simp
  have missing: "[- 1, 1 :: int] ! 0 = - 1" by simp
  have missing0: "[- 1, 0 :: int] ! 0 = - 1" by simp
  have i: "(0::nat) = 0 * 2 + 0 - first_phase ?st" by simp
  note t = missing_call_keeps_phase [OF parse s sr same fp ok0 ok1 res active missing i]
  note u = missing_call_keeps_phase [OF parse0 s sr same fp ok0 ok1 res0 active missing0 i]
  have len: "0 - first_phase ?st < length (active_phase_threads ?st)"
    by (simp add: ex_state_def)
  from u have "\<forall>p name st0. p - first_phase st0 < length (active_phase_threads st0) \<longrightarrow>
      active_phase_threads (finish_phase ex_env p name st0) ! (p - first_phase st0) = []"
    by (rule conjunct2 [OF conjunct2 [OF conjunct2 [OF conjunct2]]])
  from this [rule_format, OF len, of "''n''"]
  have fin: "active_phase_threads (finish_phase ex_env 0 ''n'' ?st) ! 0 = []"
    by (simp add: ex_state_def)
  from t res res0 fin show ?thesis by simp
qed

text \<open>
  With a change of ploidy the forced close comes first. After the variant with the
  genotype \<open>1|0\<close>, phase 0 of \<open>s0\<close> holds the buffer \<open>[2, 8]\<close>; the next variant has the
  genotype \<open>.\<close>, haploid with a missing allele for phase 0, and at that site the thread of
  phase 0 is extended, handed over and its buffer emptied.
\<close>

theorem missing_call_counterexample:
  "map_sum id (\<lambda>s. (active_phase_threads s ! 0, nonvariant_starts s ! 0, sinks s))
     (handle_variant ex_env (ex_var_at 3 ''1|0'') (init_path ex_env no_threads)) =
     Inr ([2, 8], 4, ([], [], [])) \<and>
   parse_genotype True ''.'' = Inr ([- 1, - 1], 1, False) \<and>
   map_sum id (\<lambda>s. (active_phase_threads s ! 0, nonvariant_starts s ! 0, sinks s))
     (fold_err (handle_variant ex_env) [ex_var_at 3 ''1|0'', ex_var_at 5 ''.'']
        (init_path ex_env no_threads)) =
     Inr ([], 4, ([([2, 8, 6], True), ([2, 4, 6], True)], [], []))"
  by code_simp

subsection \<open>The names of the threads\<close>

text \<open>
  Claim C3 asks for names that are distinct within a sample, contig and phase slot. The
  close at a ploidy change builds the name of either slot from the counter of slot 0
  (\<open>saved_phase_paths[sample_number*2 - first_phase]\<close>), where \<open>append_node\<close> and the close at
  the end of a batch use the counter of the phase itself. In the run below the sample \<open>s0\<close>
  is diploid, then haploid, then diploid again: the close at the first change names the
  thread of slot 1 with index 1 (the counter of slot 0 after its own close), and the close
  at the end of the batch, reading the counter of slot 1, gives the same name again.
\<close>

theorem ploidy_close_repeats_thread_name:
  "map_option (map_sum id thread_names)
     (index_path ex_env [ex_var_at 2 ''0|0'', ex_var_at 3 ''0'', ex_var_at 5 ''0|0''] no_threads) =
   Some (Inr [''_thread_s0_c_0_0'', ''_thread_s0_c_1_1'', ''_thread_s0_c_0_1'',
              ''_thread_s0_c_0_2'', ''_thread_s0_c_1_1''])"
  by code_simp

subsection \<open>The check of the batch size\<close>

lemma zero_batch_rejected:
  "vcf_name opts \<noteq> [] \<Longrightarrow> options_rejected opts e 0"
  by (simp add: options_rejected_def)

text \<open>
  Claim C10, as far as the code goes. The batch size is a \<open>size_t\<close> read by \<open>std::stoul\<close>,
  and the check \<open>samples_in_batch < 1\<close> is made only when a VCF is given. So: when a VCF is
  given and the argument of \<open>--batch-size\<close> is read as zero, \<open>main_index\<close> returns 1 at the
  checks of the options, before any graph or variant is touched; no thread exists then.
\<close>

theorem zero_batch_size_is_fatal:
  assumes "vcf_name opts \<noteq> []"
    and "batch_size_optarg opts = Some optarg"
    and "stoul optarg = Inr 0"
  shows "main_index opts e paths = Some (Failed 1)"
  using assms by (simp add: main_index_def zero_batch_rejected)

theorem zero_batch_size_is_fatal_witness:
  "main_index (ex_options ''0'') ex_env [ex_path] = Some (Failed 1)"
proof -
  have v: "vcf_name (ex_options ''0'') \<noteq> []" by (simp add: ex_options_def)
  have b: "batch_size_optarg (ex_options ''0'') = Some ''0''" by (simp add: ex_options_def)
  have z: "stoul ''0'' = Inr 0" by code_simp
  show ?thesis by (rule zero_batch_size_is_fatal [OF v b z])
qed

text \<open>
  A negative argument is not rejected as such: \<open>std::stoul\<close> negates the digits in the
  unsigned type, so \<open>-18446744073709551615\<close> is the batch size 1, and the run completes and
  emits the two threads of \<open>s0\<close>. And without a VCF the batch size zero is not looked at:
  the run completes, with no thread.
\<close>

theorem negative_batch_size_counterexample:
  "main_index ((ex_options ''0'')\<lparr>vcf_name := []\<rparr>) ex_env [ex_path] = Some (Completed no_threads) \<and>
   fst (sign_and_digits ''-18446744073709551615'') \<and>
   stoul ''-18446744073709551615'' = Inr 1 \<and>
   main_index (ex_options ''-18446744073709551615'') ex_env [ex_path] =
     Some (Completed (no_threads\<lparr>active_phase_threads := [[], []], saved_phase_paths := [0, 0],
       active_phases := [0], diploid_region := [True], nonvariant_starts := [0, 0],
       batch_start := 1, batch_limit := 1, first_phase := 2,
       gbwt_builder := [([2, 4, 6], True), ([2, 8, 6], True)],
       thread_names := [''_thread_s0_c_0_0'', ''_thread_s0_c_1_0'']\<rparr>))"
  by code_simp

subsection \<open>Every fragment is a walk\<close>

text \<open>
  Claim C1, as far as the code goes. \<open>append_node\<close> checks the edge to the node it appends;
  \<open>append_node_nocheck\<close>, used for the reference visits after the first one of a span, does
  not. So let the consecutive visits of the reference path be joined by edges. Then, from
  sinks that hold walks only, the run over the batches of a contig returns for every
  positive batch size, and however it ends (normally or by an exception of \<open>std::stoi\<close> or
  \<open>std::map::at\<close>) every fragment in the GBWT builder, in the binary file and in the list
  of threads is a walk in the graph.
\<close>

theorem emitted_fragments_are_walks:
  assumes r: "reference_is_walk e" and s: "sinks_walk e st"
  shows "(0 < samples_in_batch e \<longrightarrow> (\<exists>res. index_path e stream st = Some res)) \<and>
         (\<forall>res. index_path e stream st = Some res \<longrightarrow> sinks_walk e (final_state res))"
proof (intro conjI impI allI)
  assume pos: "0 < samples_in_batch e"
  have lim: "batch_limit (init_path e st) =
      min (batch_start (init_path e st) + samples_in_batch e) (sample_range_second e)"
    by (simp add: init_path_def)
  from batch_loop_returns [OF r pos init_path_inv [OF s] lim]
  show "\<exists>res. index_path e stream st = Some res"
    by (simp add: index_path_def)
next
  fix res
  assume "index_path e stream st = Some res"
  then have "batch_loop e stream (init_path e st) = Some res"
    by (simp add: index_path_def)
  from batch_loop_inv [OF this r init_path_inv [OF s]]
  show "sinks_walk e (final_state res)"
    by (simp add: threads_inv_def)
qed

theorem emitted_fragments_are_walks_witness:
  "index_path ex_env [ex_var ''0|1''] no_threads =
     Some (Inr (no_threads\<lparr>active_phase_threads := [[], []], saved_phase_paths := [0, 0],
       active_phases := [0], diploid_region := [True], nonvariant_starts := [0, 0],
       batch_start := 1, batch_limit := 1, first_phase := 2,
       gbwt_builder := [([2, 4, 6], True), ([2, 8, 6], True)],
       thread_names := [''_thread_s0_c_0_0'', ''_thread_s0_c_1_0'']\<rparr>)) \<and>
   sinks_walk ex_env
     (no_threads\<lparr>active_phase_threads := [[], []], saved_phase_paths := [0, 0],
       active_phases := [0], diploid_region := [True], nonvariant_starts := [0, 0],
       batch_start := 1, batch_limit := 1, first_phase := 2,
       gbwt_builder := [([2, 4, 6], True), ([2, 8, 6], True)],
       thread_names := [''_thread_s0_c_0_0'', ''_thread_s0_c_1_0'']\<rparr>)"
proof -
  let ?st = "no_threads\<lparr>active_phase_threads := [[], []], saved_phase_paths := [0, 0],
       active_phases := [0], diploid_region := [True], nonvariant_starts := [0, 0],
       batch_start := 1, batch_limit := 1, first_phase := 2,
       gbwt_builder := [([2, 4, 6], True), ([2, 8, 6], True)],
       thread_names := [''_thread_s0_c_0_0'', ''_thread_s0_c_1_0'']\<rparr>"
  have r: "reference_is_walk ex_env" by code_simp
  have s: "sinks_walk ex_env no_threads" by code_simp
  have run: "index_path ex_env [ex_var ''0|1''] no_threads = Some (Inr ?st)" by code_simp
  from emitted_fragments_are_walks [OF r s, of "[ex_var ''0|1'']"] run
  have "sinks_walk ex_env (final_state (Inr ?st))" by simp
  with run show ?thesis by (simp add: final_state_def)
qed

text \<open>
  Without that condition the claim fails. In the pruned graph the edge between the
  reference nodes 2 and 3 is gone; a sample with the reference genotype gets, at the end of
  the batch, the whole reference path appended, the first visit checked and the others
  not, and the thread handed to the GBWT builder steps from node 2 to node 3.
\<close>

theorem reference_edge_counterexample:
  "map_option (map_sum id gbwt_builder) (index_path ex_env_pruned [ex_var ''0|0''] no_threads) =
     Some (Inr [([2, 4, 6], True), ([2, 4, 6], True)]) \<and>
   \<not> edge_exists ex_env_pruned 4 6"
  by code_simp

end
